theory Spec2Isabelle
  imports Main
begin

section \<open>Ranges and merge-decision records (node-diff3.ts, lines 11-65)\<close>

text \<open>
  JavaScript numbers are modelled as \<open>int\<close>: every number the merge engine handles is an
  integer index or a difference of two, and differences may be negative, so nothing is
  truncated. The field \<open>length\<close> of the source is called \<open>lengthR\<close> here.
\<close>

record Range =
  location :: int
  lengthR :: int

definition makeRange :: "int \<Rightarrow> int \<Rightarrow> Range" where
  "makeRange loc len = \<lparr>location = loc, lengthR = len\<rparr>"

definition upperBound :: "Range \<Rightarrow> int" where
  "upperBound r = location r + lengthR r"

text \<open>
  \<open>Index = ConflictIndex | OkIndexA | OkIndexB\<close>. The arguments are, in order,
  \<open>aRange oRange bRange\<close> for a conflict and \<open>length aIndex oIndex bIndex\<close> for the two
  ok records; \<open>number | undefined\<close> is an \<open>int option\<close>.
\<close>

datatype Index =
    Conflict Range Range Range
  | OkA int int "int option" "int option"
  | OkB int "int option" "int option" int

text \<open>\<open>DiffIndicesResult\<close>: the fields \<open>a\<close> and \<open>b\<close> of the source.\<close>

record DiffIndicesResult =
  res_a :: Range
  res_b :: Range

section \<open>The sequence differ \<open>diffIndices\<close> (node-diff3.ts, lines 67-178)\<close>

text \<open>
  An \<open>ArrayLike<T>\<close> value is a string or an array object. A string is compared by value
  and its elements are its code units; an array is an object, compared by reference,
  so it carries the identity \<open>ref\<close> that \<open>===\<close> compares. Reading past the end gives
  \<open>undefined\<close>, which is \<open>None\<close>.
\<close>

datatype 'a ArrayLike = JSString "'a list" | JSArray nat "'a list"

fun items :: "'a ArrayLike \<Rightarrow> 'a list" where
  "items (JSString s) = s"
| "items (JSArray r xs) = xs"

fun isString :: "'a ArrayLike \<Rightarrow> bool" where
  "isString (JSString s) = True"
| "isString (JSArray r xs) = False"

fun strictEq :: "'a ArrayLike \<Rightarrow> 'a ArrayLike \<Rightarrow> bool" where
  "strictEq (JSString s) (JSString t) = (s = t)"
| "strictEq (JSArray r xs) (JSArray r' ys) = (r = r')"
| "strictEq (JSString s) (JSArray r ys) = False"
| "strictEq (JSArray r xs) (JSString t) = False"

definition seqLength :: "'a ArrayLike \<Rightarrow> int" where
  "seqLength a = int (length (items a))"

definition at :: "'a ArrayLike \<Rightarrow> int \<Rightarrow> 'a option" where
  "at a i = (if 0 \<le> i \<and> i < seqLength a then Some (items a ! nat i) else None)"

definition areReferenceEqual :: "'a option \<Rightarrow> 'a option \<Rightarrow> bool" where
  "areReferenceEqual x y = (x = y)"

subsection \<open>\<open>diffIndicesString\<close>\<close>

text \<open>
  \<open>fast-diff\<close> is a library; its function is a parameter \<open>fastDiff\<close> of the model. It
  returns pairs of an operation and the text the operation covers.
\<close>

datatype DiffOp = DELETE | EQUAL | INSERT

record StringDiffState =
  aIndexS :: int
  bIndexS :: int
  lastA :: int
  lastB :: int
  resultS :: "DiffIndicesResult list"

definition flush :: "StringDiffState \<Rightarrow> StringDiffState" where
  "flush st =
     (if aIndexS st > lastA st \<or> bIndexS st > lastB st then
        st\<lparr>resultS := resultS st @
             [\<lparr>res_a = makeRange (lastA st) (aIndexS st - lastA st),
               res_b = makeRange (lastB st) (bIndexS st - lastB st)\<rparr>]\<rparr>
      else st)"

fun stringLoop :: "(DiffOp \<times> 'a list) list \<Rightarrow> StringDiffState \<Rightarrow> StringDiffState" where
  "stringLoop [] st = st"
| "stringLoop ((EQUAL, str) # ds) st =
     (let st1 = flush st;
          ai = aIndexS st1 + int (length str);
          bi = bIndexS st1 + int (length str)
      in stringLoop ds (st1\<lparr>aIndexS := ai, bIndexS := bi, lastA := ai, lastB := bi\<rparr>))"
| "stringLoop ((INSERT, str) # ds) st =
     stringLoop ds (st\<lparr>bIndexS := bIndexS st + int (length str)\<rparr>)"
| "stringLoop ((DELETE, str) # ds) st =
     stringLoop ds (st\<lparr>aIndexS := aIndexS st + int (length str)\<rparr>)"

definition diffIndicesString ::
  "('a list \<Rightarrow> 'a list \<Rightarrow> (DiffOp \<times> 'a list) list) \<Rightarrow> 'a list \<Rightarrow> 'a list
     \<Rightarrow> DiffIndicesResult list" where
  "diffIndicesString fastDiff a b =
     resultS (flush (stringLoop (fastDiff a b)
       \<lparr>aIndexS = 0, bIndexS = 0, lastA = 0, lastB = 0, resultS = []\<rparr>))"

subsection \<open>\<open>diffIndicesArray\<close>\<close>

text \<open>The loop that eliminates the common prefix; it returns the final \<open>offset\<close>.\<close>

function eliminatePrefix ::
  "('a option \<Rightarrow> 'a option \<Rightarrow> bool) \<Rightarrow> 'a ArrayLike \<Rightarrow> 'a ArrayLike \<Rightarrow> int \<Rightarrow> int" where
  "eliminatePrefix areEqual a b offset =
     (if offset < seqLength a \<and> offset < seqLength b \<and> areEqual (at a offset) (at b offset)
      then eliminatePrefix areEqual a b (offset + 1)
      else offset)"
  by pat_completeness auto
termination
  by (relation "measure (\<lambda>(areEqual, a, b, offset). nat (seqLength a - offset))") auto

text \<open>
  The loop that eliminates the common suffix; it returns the final \<open>aLength\<close> and
  \<open>bLength\<close>.
\<close>

function eliminateSuffix ::
  "('a option \<Rightarrow> 'a option \<Rightarrow> bool) \<Rightarrow> 'a ArrayLike \<Rightarrow> 'a ArrayLike \<Rightarrow> int \<Rightarrow> int \<Rightarrow> int
     \<Rightarrow> int \<times> int" where
  "eliminateSuffix areEqual a b offset aLength bLength =
     (if aLength > offset \<and> bLength > offset then
        (if \<not> areEqual (at a (aLength - 1)) (at b (bLength - 1)) then (aLength, bLength)
         else eliminateSuffix areEqual a b offset (aLength - 1) (bLength - 1))
      else (aLength, bLength))"
  by pat_completeness auto
termination
  by (relation "measure (\<lambda>(areEqual, a, b, offset, aLength, bLength). nat (aLength - offset))")
     auto

declare eliminatePrefix.simps [simp del]

declare eliminateSuffix.simps [simp del]

text \<open>
  \<open>fast-myers-diff\<close> is a library; its generator \<open>diff_core(i, N, j, M, eq)\<close> is a
  parameter of the model and yields the tuples \<open>[aStart, aEnd, bStart, bEnd]\<close>.
\<close>

type_synonym DiffCore =
  "int \<Rightarrow> int \<Rightarrow> int \<Rightarrow> int \<Rightarrow> (int \<Rightarrow> int \<Rightarrow> bool) \<Rightarrow> (int \<times> int \<times> int \<times> int) list"

definition coreResult :: "int \<times> int \<times> int \<times> int \<Rightarrow> DiffIndicesResult" where
  "coreResult t =
     (case t of (aStart, aEnd, bStart, bEnd) \<Rightarrow>
        \<lparr>res_a = makeRange aStart (aEnd - aStart), res_b = makeRange bStart (bEnd - bStart)\<rparr>)"

definition diffIndicesArray ::
  "DiffCore \<Rightarrow> 'a ArrayLike \<Rightarrow> 'a ArrayLike \<Rightarrow> ('a option \<Rightarrow> 'a option \<Rightarrow> bool)
     \<Rightarrow> DiffIndicesResult list" where
  "diffIndicesArray diff_core a b areEqual =
     (if strictEq a b then []
      else
        (let offset = eliminatePrefix areEqual a b 0 in
         if offset = seqLength a \<and> offset = seqLength b then []
         else
           (case eliminateSuffix areEqual a b offset (seqLength a) (seqLength b) of
              (aLength, bLength) \<Rightarrow>
                map coreResult
                  (diff_core offset (aLength - offset) offset (bLength - offset)
                     (\<lambda>i j. areEqual (at a i) (at b j))))))"

definition diffIndices ::
  "('a list \<Rightarrow> 'a list \<Rightarrow> (DiffOp \<times> 'a list) list) \<Rightarrow> DiffCore
     \<Rightarrow> 'a ArrayLike \<Rightarrow> 'a ArrayLike \<Rightarrow> DiffIndicesResult list" where
  "diffIndices fastDiff diff_core a b =
     (if isString a \<and> isString b then diffIndicesString fastDiff (items a) (items b)
      else diffIndicesArray diff_core a b areReferenceEqual)"

text \<open>
  What a diff of \<open>a\<close> against \<open>b\<close> is, from the positions \<open>i\<close> and \<open>j\<close> to the ends
  \<open>iEnd\<close> and \<open>jEnd\<close>: the hunks are in order and do not overlap in either sequence, no
  hunk is empty on both sides, and what lies before, between and after the hunks has
  the same length in both sequences and is equal element by element under \<open>eq\<close>.
\<close>

fun changesFrom ::
  "(int \<Rightarrow> int \<Rightarrow> bool) \<Rightarrow> int \<Rightarrow> int \<Rightarrow> int \<Rightarrow> int \<Rightarrow> DiffIndicesResult list \<Rightarrow> bool" where
  "changesFrom eq i j iEnd jEnd [] =
     (i \<le> iEnd \<and> iEnd - i = jEnd - j \<and> (\<forall>k\<in>{0..<iEnd - i}. eq (i + k) (j + k)))"
| "changesFrom eq i j iEnd jEnd (h # hs) =
     (i \<le> location (res_a h) \<and> location (res_a h) - i = location (res_b h) - j
      \<and> (\<forall>k\<in>{0..<location (res_a h) - i}. eq (i + k) (j + k))
      \<and> 0 \<le> lengthR (res_a h) \<and> 0 \<le> lengthR (res_b h)
      \<and> (0 < lengthR (res_a h) \<or> 0 < lengthR (res_b h))
      \<and> changesFrom eq (upperBound (res_a h)) (upperBound (res_b h)) iEnd jEnd hs)"

definition changedRegions ::
  "('a option \<Rightarrow> 'a option \<Rightarrow> bool) \<Rightarrow> 'a ArrayLike \<Rightarrow> 'a ArrayLike
     \<Rightarrow> DiffIndicesResult list \<Rightarrow> bool" where
  "changedRegions areEqual a b hs =
     changesFrom (\<lambda>i j. areEqual (at a i) (at b j)) 0 0 (seqLength a) (seqLength b) hs"

text \<open>
  The contract of \<open>diff_core\<close>: called on the window of \<open>N\<close> elements from \<open>i\<close> and \<open>M\<close>
  elements from \<open>j\<close>, it yields a diff of the one window against the other.
\<close>

definition coreContract :: "DiffCore \<Rightarrow> (int \<Rightarrow> int \<Rightarrow> bool) \<Rightarrow> bool" where
  "coreContract diff_core eq =
     (\<forall>i N j M. 0 \<le> N \<and> 0 \<le> M \<longrightarrow>
        changesFrom eq i j (i + N) (j + M) (map coreResult (diff_core i N j M eq)))"

text \<open>
  The contract of \<open>fastDiff\<close>: an edit script from \<open>a\<close> to \<open>b\<close>. The texts of its
  \<open>EQUAL\<close> and \<open>DELETE\<close> entries make up \<open>a\<close>, those of its \<open>EQUAL\<close> and \<open>INSERT\<close>
  entries make up \<open>b\<close>.
\<close>

fun sourceText :: "(DiffOp \<times> 'a list) list \<Rightarrow> 'a list" where
  "sourceText [] = []"
| "sourceText ((INSERT, str) # ds) = sourceText ds"
| "sourceText ((EQUAL, str) # ds) = str @ sourceText ds"
| "sourceText ((DELETE, str) # ds) = str @ sourceText ds"

fun targetText :: "(DiffOp \<times> 'a list) list \<Rightarrow> 'a list" where
  "targetText [] = []"
| "targetText ((DELETE, str) # ds) = targetText ds"
| "targetText ((EQUAL, str) # ds) = str @ targetText ds"
| "targetText ((INSERT, str) # ds) = str @ targetText ds"

definition editScript :: "'a list \<Rightarrow> 'a list \<Rightarrow> (DiffOp \<times> 'a list) list \<Rightarrow> bool" where
  "editScript a b ds = (sourceText ds = a \<and> targetText ds = b)"

text \<open>The hunks the string loop and the final flush push, computed from the front.\<close>

fun hunksOf :: "(DiffOp \<times> 'a list) list \<Rightarrow> int \<Rightarrow> int \<Rightarrow> int \<Rightarrow> int \<Rightarrow> DiffIndicesResult list" where
  "hunksOf [] ai bi la lb =
     (if ai > la \<or> bi > lb
      then [\<lparr>res_a = makeRange la (ai - la), res_b = makeRange lb (bi - lb)\<rparr>] else [])"
| "hunksOf ((EQUAL, str) # ds) ai bi la lb =
     (if ai > la \<or> bi > lb
      then [\<lparr>res_a = makeRange la (ai - la), res_b = makeRange lb (bi - lb)\<rparr>] else [])
     @ hunksOf ds (ai + int (length str)) (bi + int (length str))
         (ai + int (length str)) (bi + int (length str))"
| "hunksOf ((INSERT, str) # ds) ai bi la lb = hunksOf ds ai (bi + int (length str)) la lb"
| "hunksOf ((DELETE, str) # ds) ai bi la lb = hunksOf ds (ai + int (length str)) bi la lb"

text \<open>
  The coarsest \<open>diff_core\<close> that keeps the contract: it reports the whole window as one
  change. It serves as the differ of the examples.
\<close>

definition wholeWindowCore :: DiffCore where
  "wholeWindowCore i N j M eq = (if N = 0 \<and> M = 0 then [] else [(i, i + N, j, j + M)])"

section \<open>The sequence merger \<open>diff3MergeIndices\<close> (node-diff3.ts, lines 191-330)\<close>

datatype Side = SideA | SideB

record Hunk =
  side :: Side
  oRange :: Range
  sideRange :: Range

definition addHunk :: "Side \<Rightarrow> DiffIndicesResult \<Rightarrow> Hunk" where
  "addHunk s h = \<lparr>side = s, oRange = res_a h, sideRange = res_b h\<rparr>"

text \<open>
  The two loops that push the hunks of \<open>m1\<close> and then of \<open>m2\<close>, and the sort by the
  start of the base range. \<open>Array.prototype.sort\<close> is stable, as \<open>sort_key\<close> is.
\<close>

definition sortedHunks :: "DiffIndicesResult list \<Rightarrow> DiffIndicesResult list \<Rightarrow> Hunk list" where
  "sortedHunks m1 m2 =
     sort_key (\<lambda>h. location (oRange h)) (map (addHunk SideA) m1 @ map (addHunk SideB) m2)"

record MergeState =
  result :: "Index list"
  oOffset :: int
  aOffset :: int
  bOffset :: int

definition copyCommon :: "int \<Rightarrow> MergeState \<Rightarrow> MergeState" where
  "copyCommon targetOffset st =
     (let delta = targetOffset - oOffset st in
      if delta > 0 then
        \<lparr>result = result st @ [OkA delta (aOffset st) (Some (oOffset st)) (Some (bOffset st))],
         oOffset = oOffset st + delta,
         aOffset = aOffset st + delta,
         bOffset = bOffset st + delta\<rparr>
      else st)"

text \<open>
  The inner \<open>while\<close> loop. It is entered with the hunks after the current one and the
  current \<open>regionRhs\<close>; it returns the hunks it took into the region, the hunks it left,
  and the final \<open>regionRhs\<close>. In the source the first component is the index range
  \<open>firstHunkIndex + 1 .. hunkIndex\<close>.
\<close>

fun extendRegion :: "int \<Rightarrow> Hunk list \<Rightarrow> Hunk list \<times> Hunk list \<times> int" where
  "extendRegion regionRhs [] = ([], [], regionRhs)"
| "extendRegion regionRhs (maybeOverlapping # hs) =
     (let maybeLhs = location (oRange maybeOverlapping) in
      if maybeLhs > regionRhs then ([], maybeOverlapping # hs, regionRhs)
      else
        (case extendRegion (max regionRhs (upperBound (oRange maybeOverlapping))) hs of
           (taken, rest, r) \<Rightarrow> (maybeOverlapping # taken, rest, r)))"

text \<open>The branch \<open>firstHunkIndex === hunkIndex\<close>: the region is one hunk long.\<close>

definition emitSingle :: "Hunk \<Rightarrow> int \<Rightarrow> MergeState \<Rightarrow> MergeState" where
  "emitSingle hunk regionRhs st =
     (let res =
        (if lengthR (sideRange hunk) > 0 then
           (if side hunk = SideA then
              result st @ [OkA (lengthR (sideRange hunk)) (location (sideRange hunk)) None None]
            else
              result st @ [OkB (lengthR (sideRange hunk)) None None (location (sideRange hunk))])
         else result st);
          delta = regionRhs - oOffset st
      in \<lparr>result = res,
          oOffset = regionRhs,
          aOffset = (if side hunk = SideA then upperBound (sideRange hunk) else aOffset st + delta),
          bOffset = (if side hunk = SideB then upperBound (sideRange hunk) else bOffset st + delta)\<rparr>)"

text \<open>
  The branch of a proper conflict. \<open>regions.a\<close> and \<open>regions.b\<close> are the four-element
  arrays \<open>[abLhs, abRhs, oLhs, oRhs]\<close>, updated by the \<open>for\<close> loop over the hunks of the
  region.
\<close>

type_synonym Bounds = "int \<times> int \<times> int \<times> int"

definition updateBounds :: "Hunk \<Rightarrow> Bounds \<Rightarrow> Bounds" where
  "updateBounds hunk r =
     (case r of (r0, r1, r2, r3) \<Rightarrow>
        (min (location (sideRange hunk)) r0,
         max (upperBound (sideRange hunk)) r1,
         min (location (oRange hunk)) r2,
         max (upperBound (oRange hunk)) r3))"

fun regionBounds :: "Hunk list \<Rightarrow> Bounds \<times> Bounds \<Rightarrow> Bounds \<times> Bounds" where
  "regionBounds [] regions = regions"
| "regionBounds (hunk # hs) (ra, rb) =
     regionBounds hs
       (if side hunk = SideA then (updateBounds hunk ra, rb) else (ra, updateBounds hunk rb))"

definition emitConflict ::
  "Hunk list \<Rightarrow> int \<Rightarrow> int \<Rightarrow> int \<Rightarrow> int \<Rightarrow> int \<Rightarrow> MergeState \<Rightarrow> MergeState" where
  "emitConflict hs regionLhs regionRhs oLen aLen bLen st =
     (case regionBounds hs ((aLen, -1, oLen, -1), (bLen, -1, oLen, -1)) of
        ((a0, a1, a2, a3), (b0, b1, b2, b3)) \<Rightarrow>
          (let aLhs = a0 + (regionLhs - a2);
               aRhs = a1 + (regionRhs - a3);
               bLhs = b0 + (regionLhs - b2);
               bRhs = b1 + (regionRhs - b3)
           in \<lparr>result = result st @
                  [Conflict (makeRange aLhs (aRhs - aLhs))
                            (makeRange regionLhs (regionRhs - regionLhs))
                            (makeRange bLhs (bRhs - bLhs))],
               oOffset = regionRhs,
               aOffset = aRhs,
               bOffset = bRhs\<rparr>))"

text \<open>
  One iteration of the outer \<open>for\<close> loop, once the region is known: \<open>hunk\<close> is
  \<open>hunks[firstHunkIndex]\<close> and \<open>taken\<close> the hunks the inner loop added to the region.
\<close>

definition processRegion ::
  "int \<Rightarrow> int \<Rightarrow> int \<Rightarrow> Hunk \<Rightarrow> Hunk list \<Rightarrow> int \<Rightarrow> MergeState \<Rightarrow> MergeState" where
  "processRegion oLen aLen bLen hunk taken regionRhs st =
     (let regionLhs = location (oRange hunk);
          st1 = copyCommon regionLhs st
      in if taken = [] then emitSingle hunk regionRhs st1
         else emitConflict (hunk # taken) regionLhs regionRhs oLen aLen bLen st1)"

lemma extendRegion_rest_length:
  "extendRegion r hs = (taken, rest, r') \<Longrightarrow> length rest \<le> length hs"
proof (induction hs arbitrary: r taken rest r')
  case Nil
  then show ?case by simp
next
  case (Cons h hs)
  show ?case
  proof (cases "location (oRange h) > r")
    case True
    with Cons.prems show ?thesis by auto
  next
    case False
    obtain t s q where e: "extendRegion (max r (upperBound (oRange h))) hs = (t, s, q)"
      by (cases "extendRegion (max r (upperBound (oRange h))) hs") auto
    with False Cons.prems have "rest = s" by auto
    with Cons.IH [OF e] show ?thesis by simp
  qed
qed

function sweep :: "int \<Rightarrow> int \<Rightarrow> int \<Rightarrow> Hunk list \<Rightarrow> MergeState \<Rightarrow> MergeState" where
  "sweep oLen aLen bLen [] st = st"
| "sweep oLen aLen bLen (hunk # hs) st =
     (case extendRegion (upperBound (oRange hunk)) hs of
        (taken, rest, regionRhs) \<Rightarrow>
          sweep oLen aLen bLen rest (processRegion oLen aLen bLen hunk taken regionRhs st))"
  by pat_completeness auto
termination
  by (relation "measure (\<lambda>(oLen, aLen, bLen, hs, st). length hs)")
     (auto dest: extendRegion_rest_length [OF sym])

text \<open>
  The body of \<open>diff3MergeIndices\<close> after the two calls of \<open>diffIndices\<close>: \<open>m1\<close> and \<open>m2\<close>
  are their results, \<open>oLen\<close>, \<open>aLen\<close> and \<open>bLen\<close> are \<open>o.length\<close>, \<open>a.length\<close> and
  \<open>b.length\<close>.
\<close>

definition initialState :: MergeState where
  "initialState = \<lparr>result = [], oOffset = 0, aOffset = 0, bOffset = 0\<rparr>"

definition mergeHunks ::
  "DiffIndicesResult list \<Rightarrow> DiffIndicesResult list \<Rightarrow> int \<Rightarrow> int \<Rightarrow> int \<Rightarrow> Index list" where
  "mergeHunks m1 m2 oLen aLen bLen =
     result (copyCommon oLen (sweep oLen aLen bLen (sortedHunks m1 m2) initialState))"


definition diff3MergeIndices ::
  "('a list \<Rightarrow> 'a list \<Rightarrow> (DiffOp \<times> 'a list) list) \<Rightarrow> DiffCore
     \<Rightarrow> 'a ArrayLike \<Rightarrow> 'a ArrayLike \<Rightarrow> 'a ArrayLike \<Rightarrow> Index list" where
  "diff3MergeIndices fastDiff diff_core o' a b =
     (let m1 = diffIndices fastDiff diff_core o' a;
          m2 = diffIndices fastDiff diff_core o' b
      in mergeHunks m1 m2 (seqLength o') (seqLength a) (seqLength b))"

subsection \<open>The regions of the sweep and the steps of a run\<close>

text \<open>
  The regions the outer loop visits, each as \<open>(hunks[firstHunkIndex], the hunks the inner
  loop added, regionRhs)\<close>. They are computed as \<open>sweep\<close> computes them; \<open>runRegions\<close>
  applies the loop body to each in turn, and \<open>sweep_runRegions\<close> below shows that this is
  what \<open>sweep\<close> does.
\<close>

function regionsOf :: "Hunk list \<Rightarrow> (Hunk \<times> Hunk list \<times> int) list" where
  "regionsOf [] = []"
| "regionsOf (hunk # hs) =
     (case extendRegion (upperBound (oRange hunk)) hs of
        (taken, rest, regionRhs) \<Rightarrow> (hunk, taken, regionRhs) # regionsOf rest)"
  by pat_completeness auto
termination
  by (relation "measure length") (auto dest: extendRegion_rest_length [OF sym])

fun runRegions ::
  "int \<Rightarrow> int \<Rightarrow> int \<Rightarrow> (Hunk \<times> Hunk list \<times> int) list \<Rightarrow> MergeState \<Rightarrow> MergeState" where
  "runRegions oLen aLen bLen [] st = st"
| "runRegions oLen aLen bLen ((hunk, taken, regionRhs) # rs) st =
     runRegions oLen aLen bLen rs (processRegion oLen aLen bLen hunk taken regionRhs st)"

text \<open>
  What happens between two states: the base span from the old \<open>oOffset\<close> to the new
  one, and the records pushed in between.
\<close>

definition stepBetween :: "MergeState \<Rightarrow> MergeState \<Rightarrow> Range \<times> Index list" where
  "stepBetween st st' =
     (makeRange (oOffset st) (oOffset st' - oOffset st), drop (length (result st)) (result st'))"

text \<open>
  Spans that follow one another from \<open>pos\<close> to \<open>n\<close>: each starts where the one before
  ended, none has a negative length, the last ends at \<open>n\<close>.
\<close>

fun chained :: "int \<Rightarrow> int \<Rightarrow> Range list \<Rightarrow> bool" where
  "chained pos n [] = (pos = n)"
| "chained pos n (r # rs) = (location r = pos \<and> 0 \<le> lengthR r \<and> chained (upperBound r) n rs)"

text \<open>
  The reading of the records alone: walking the list from base position \<open>pos\<close>, a
  conflict and a record with an \<open>oIndex\<close> must start at the current position and move it
  to their end; a record without \<open>oIndex\<close> (one side's changed content) may stand for any
  base span that starts at the current position; at the end the position is \<open>n\<close>.
\<close>

fun accountsFrom :: "int \<Rightarrow> int \<Rightarrow> Index list \<Rightarrow> bool" where
  "accountsFrom n pos [] = (pos = n)"
| "accountsFrom n pos (Conflict ar orr br # rs) =
     (location orr = pos \<and> 0 \<le> lengthR orr \<and> accountsFrom n (upperBound orr) rs)"
| "accountsFrom n pos (OkA len ai (Some oi) bi # rs) =
     (oi = pos \<and> 0 \<le> len \<and> accountsFrom n (pos + len) rs)"
| "accountsFrom n pos (OkA len ai None bi # rs) = (\<exists>q\<in>{pos..n}. accountsFrom n q rs)"
| "accountsFrom n pos (OkB len ai (Some oi) bi # rs) =
     (oi = pos \<and> 0 \<le> len \<and> accountsFrom n (pos + len) rs)"
| "accountsFrom n pos (OkB len ai None bi # rs) = (\<exists>q\<in>{pos..n}. accountsFrom n q rs)"

text \<open>The base range of a hunk of a diff lies within a base sequence of length \<open>n\<close>.\<close>

definition baseWithin :: "int \<Rightarrow> DiffIndicesResult \<Rightarrow> bool" where
  "baseWithin n h =
     (0 \<le> location (res_a h) \<and> 0 \<le> lengthR (res_a h) \<and> upperBound (res_a h) \<le> n)"


subsection \<open>Predicates on regions and on diffs\<close>

text \<open>
  A run of hunks each of which starts at or before the base end reached so far (touching
  counts), and the base end such a run reaches.
\<close>

fun touchingFrom :: "int \<Rightarrow> Hunk list \<Rightarrow> bool" where
  "touchingFrom rhs [] = True"
| "touchingFrom rhs (h # hs) =
     (location (oRange h) \<le> rhs \<and> touchingFrom (max rhs (upperBound (oRange h))) hs)"

fun baseEnd :: "int \<Rightarrow> Hunk list \<Rightarrow> int" where
  "baseEnd rhs [] = rhs"
| "baseEnd rhs (h # hs) = baseEnd (max rhs (upperBound (oRange h))) hs"

text \<open>Consecutive regions do not touch: the next one starts after the end of this one.\<close>

fun regionsApart :: "(Hunk \<times> Hunk list \<times> int) list \<Rightarrow> bool" where
  "regionsApart [] = True"
| "regionsApart [r] = True"
| "regionsApart ((hunk, taken, regionRhs) # (hunk', taken', regionRhs') # rs) =
     (regionRhs < location (oRange hunk')
      \<and> regionsApart ((hunk', taken', regionRhs') # rs))"

definition regionHunks :: "Hunk \<times> Hunk list \<times> int \<Rightarrow> Hunk list" where
  "regionHunks r = (case r of (hunk, taken, regionRhs) \<Rightarrow> hunk # taken)"

definition hasSide :: "Side \<Rightarrow> Hunk list \<Rightarrow> bool" where
  "hasSide s hs = list_ex (\<lambda>h. side h = s) hs"

fun isConflict :: "Index \<Rightarrow> bool" where
  "isConflict (Conflict ar orr br) = True"
| "isConflict (OkA len ai oi bi) = False"
| "isConflict (OkB len ai oi bi) = False"

text \<open>
  The contract of the pairwise differ, as far as the merger relies on it. The hunks of one
  diff are in order and no two of them touch in the base: an equal element lies between
  any two (\<open>separated\<close>). The gaps between hunks have the same length in both sequences,
  from the positions \<open>po\<close> and \<open>ps\<close> on to the ends \<open>n\<close> and \<open>m\<close> (\<open>alignedFrom\<close>).
\<close>

definition separated :: "DiffIndicesResult list \<Rightarrow> bool" where
  "separated hs =
     (sorted_wrt (\<lambda>x y. upperBound (res_a x) < location (res_a y)) hs
      \<and> list_all (\<lambda>h. 0 \<le> lengthR (res_a h)) hs)"

fun alignedFrom :: "int \<Rightarrow> int \<Rightarrow> int \<Rightarrow> int \<Rightarrow> DiffIndicesResult list \<Rightarrow> bool" where
  "alignedFrom n m po ps [] = (po \<le> n \<and> n - po = m - ps)"
| "alignedFrom n m po ps (h # hs) =
     (po \<le> location (res_a h)
      \<and> location (res_a h) - po = location (res_b h) - ps
      \<and> 0 \<le> lengthR (res_a h) \<and> 0 \<le> lengthR (res_b h)
      \<and> alignedFrom n m (upperBound (res_a h)) (upperBound (res_b h)) hs)"

definition validDiff :: "int \<Rightarrow> int \<Rightarrow> DiffIndicesResult list \<Rightarrow> bool" where
  "validDiff n m hs = (alignedFrom n m 0 0 hs \<and> separated hs)"

text \<open>
  The notions the description of a conflict uses: the hunks of one side in a region, the
  tightest range that covers a list of ranges, and a range extended outward by \<open>dl\<close> at
  its left end and by \<open>dr\<close> at its right end.
\<close>

definition sideHunks :: "Side \<Rightarrow> Hunk list \<Rightarrow> Hunk list" where
  "sideHunks s hs = filter (\<lambda>h. side h = s) hs"

definition coverLo :: "Range list \<Rightarrow> int" where
  "coverLo rs = Min (set (map location rs))"

definition coverHi :: "Range list \<Rightarrow> int" where
  "coverHi rs = Max (set (map upperBound rs))"

definition covering :: "Range list \<Rightarrow> Range" where
  "covering rs = makeRange (coverLo rs) (coverHi rs - coverLo rs)"

definition extendOutward :: "Range \<Rightarrow> int \<Rightarrow> int \<Rightarrow> Range" where
  "extendOutward r dl dr = makeRange (location r - dl) (lengthR r + dl + dr)"

text \<open>
  The steps of a run, each with what made it: a call of \<open>copyCommon\<close>, or the branch
  taken for a region, given by \<open>hunks[firstHunkIndex]\<close> and the hunks the inner loop added.
  Every region gives two steps, the call of \<open>copyCommon\<close> and the branch taken after it;
  the call of \<open>copyCommon\<close> after the loop gives the last step.
\<close>

datatype StepKind = CommonStep | RegionStep Hunk "Hunk list"

type_synonym Step = "StepKind \<times> Range \<times> Index list"

fun regionSteps ::
  "int \<Rightarrow> int \<Rightarrow> int \<Rightarrow> (Hunk \<times> Hunk list \<times> int) list \<Rightarrow> MergeState \<Rightarrow> Step list" where
  "regionSteps oLen aLen bLen [] st = []"
| "regionSteps oLen aLen bLen ((hunk, taken, regionRhs) # rs) st =
     (let st1 = copyCommon (location (oRange hunk)) st;
          st2 = processRegion oLen aLen bLen hunk taken regionRhs st
      in (CommonStep, stepBetween st st1) # (RegionStep hunk taken, stepBetween st1 st2)
           # regionSteps oLen aLen bLen rs st2)"

definition mergeSteps ::
  "DiffIndicesResult list \<Rightarrow> DiffIndicesResult list \<Rightarrow> int \<Rightarrow> int \<Rightarrow> int \<Rightarrow> Step list" where
  "mergeSteps m1 m2 oLen aLen bLen =
     (let rs = regionsOf (sortedHunks m1 m2);
          st = runRegions oLen aLen bLen rs initialState
      in regionSteps oLen aLen bLen rs initialState
           @ [(CommonStep, stepBetween st (copyCommon oLen st))])"

fun stepSpan :: "Step \<Rightarrow> Range" where
  "stepSpan (k, sp, recs) = sp"

fun stepRecords :: "Step \<Rightarrow> Index list" where
  "stepRecords (k, sp, recs) = recs"

fun stepHunks :: "Step \<Rightarrow> Hunk list" where
  "stepHunks (CommonStep, sp, recs) = []"
| "stepHunks (RegionStep hunk taken, sp, recs) = hunk # taken"

text \<open>
  The records that account for a base span \<open>sp\<close>. Of a common region: one \<open>okA\<close> record
  with an \<open>oIndex\<close>, which starts at the span and has its length, and no record only when
  the span is empty. Of a conflict region: one conflict record, whose \<open>oRange\<close> is the
  span. Of a region of one hunk: one record without \<open>oIndex\<close>, of the side and the length
  of the hunk's side range, and no record only when that side range is empty.
\<close>

fun commonRecords :: "Range \<Rightarrow> Index list \<Rightarrow> bool" where
  "commonRecords sp [] = (lengthR sp = 0)"
| "commonRecords sp [OkA len ai (Some oi) (Some bi)] =
     (0 < lengthR sp \<and> len = lengthR sp \<and> oi = location sp)"
| "commonRecords sp recs = False"

fun conflictRecords :: "Range \<Rightarrow> Index list \<Rightarrow> bool" where
  "conflictRecords sp [Conflict ar orr br] = (orr = sp)"
| "conflictRecords sp recs = False"

fun oneSidedRecords :: "Hunk \<Rightarrow> Index list \<Rightarrow> bool" where
  "oneSidedRecords hunk [] = (lengthR (sideRange hunk) \<le> 0)"
| "oneSidedRecords hunk [OkA len ai None None] =
     (side hunk = SideA \<and> 0 < len \<and> len = lengthR (sideRange hunk))"
| "oneSidedRecords hunk [OkB len None None bi] =
     (side hunk = SideB \<and> 0 < len \<and> len = lengthR (sideRange hunk))"
| "oneSidedRecords hunk recs = False"

text \<open>
  A step accounts for its span: the span of the step of a region is the tightest range
  that covers the base ranges of the hunks of the region, and the records of the step are
  those of its kind.
\<close>

fun stepAccounts :: "Step \<Rightarrow> bool" where
  "stepAccounts (CommonStep, sp, recs) = commonRecords sp recs"
| "stepAccounts (RegionStep hunk taken, sp, recs) =
     (sp = covering (map oRange (hunk # taken))
      \<and> (if taken = [] then oneSidedRecords hunk recs else conflictRecords sp recs))"

text \<open>
  The step of a region whose only hunk is a pure deletion: the side range is empty, the
  base range is not.
\<close>

fun loneDeletion :: "Step \<Rightarrow> bool" where
  "loneDeletion (CommonStep, sp, recs) = False"
| "loneDeletion (RegionStep hunk taken, sp, recs) =
     (taken = [] \<and> lengthR (sideRange hunk) \<le> 0 \<and> 0 < lengthR (oRange hunk))"

text \<open>Both ranges of a hunk of a diff lie within their sequences, of lengths \<open>n\<close> and \<open>m\<close>.\<close>

definition withinBounds :: "int \<Rightarrow> int \<Rightarrow> DiffIndicesResult \<Rightarrow> bool" where
  "withinBounds n m h =
     (0 \<le> location (res_a h) \<and> 0 \<le> lengthR (res_a h) \<and> upperBound (res_a h) \<le> n
      \<and> 0 \<le> location (res_b h) \<and> 0 \<le> lengthR (res_b h) \<and> upperBound (res_b h) \<le> m)"

text \<open>
  A hunk read back as an entry of the diff it came from, and the entries of one side among
  a list of hunks.
\<close>

definition hunkDiff :: "Hunk \<Rightarrow> DiffIndicesResult" where
  "hunkDiff h = \<lparr>res_a = oRange h, res_b = sideRange h\<rparr>"

definition sideDiffs :: "Side \<Rightarrow> Hunk list \<Rightarrow> DiffIndicesResult list" where
  "sideDiffs s hs = map hunkDiff (sideHunks s hs)"

text \<open>
  No range of a record has a negative location or length, an ok record has at least one
  element, and the indices it defines are not negative.
\<close>

definition nonNegativeRange :: "Range \<Rightarrow> bool" where
  "nonNegativeRange r = (0 \<le> location r \<and> 0 \<le> lengthR r)"

fun nonNegativeIndex :: "int option \<Rightarrow> bool" where
  "nonNegativeIndex None = True"
| "nonNegativeIndex (Some i) = (0 \<le> i)"

fun nonNegative :: "Index \<Rightarrow> bool" where
  "nonNegative (Conflict ar orr br) =
     (nonNegativeRange ar \<and> nonNegativeRange orr \<and> nonNegativeRange br)"
| "nonNegative (OkA len ai oi bi) =
     (1 \<le> len \<and> 0 \<le> ai \<and> nonNegativeIndex oi \<and> nonNegativeIndex bi)"
| "nonNegative (OkB len ai oi bi) =
     (1 \<le> len \<and> nonNegativeIndex ai \<and> nonNegativeIndex oi \<and> 0 \<le> bi)"



text \<open>Hunks of the same side are apart in the sorted list.\<close>

definition sidesApart :: "Hunk list \<Rightarrow> bool" where
  "sidesApart hs =
     sorted_wrt (\<lambda>x y. side x = side y \<longrightarrow> upperBound (oRange x) < location (oRange y)) hs"

text \<open>
  The invariant of the outer loop, on the hunks still to visit and the state: the hunks
  are sorted, hunks of one side are apart, each side's remaining diff is aligned from
  the current offsets, no remaining hunk starts before \<open>oOffset\<close>, and nothing pushed
  so far is negative.
\<close>

definition sweepInv :: "int \<Rightarrow> int \<Rightarrow> int \<Rightarrow> Hunk list \<Rightarrow> MergeState \<Rightarrow> bool" where
  "sweepInv oLen aLen bLen hs st =
     (sorted (map (\<lambda>h. location (oRange h)) hs) \<and> sidesApart hs
      \<and> alignedFrom oLen aLen (oOffset st) (aOffset st) (sideDiffs SideA hs)
      \<and> alignedFrom oLen bLen (oOffset st) (bOffset st) (sideDiffs SideB hs)
      \<and> (\<forall>h\<in>set hs. oOffset st \<le> location (oRange h))
      \<and> 0 \<le> oOffset st \<and> 0 \<le> aOffset st \<and> 0 \<le> bOffset st
      \<and> (\<forall>r\<in>set (result st). nonNegative r))"

section \<open>The structural merger \<open>diff3\<close> (spec, sections 3, 4.3, 4.4, 6 and 7)\<close>

text \<open>Modelled from the spec: the tree value of section 3, \<open>Null | Bool | Number | String | Array | Object\<close>;
  \<open>json.ts\<close> is not among the sources. An object is the list of its fields in insertion
  order; numbers are integers here.
\<close>

datatype Value =
    JNull
  | JBool bool
  | JNumber int
  | JString string
  | JArray "Value list"
  | JObject "(string \<times> Value) list"

text \<open>Modelled from the spec: the two error kinds of section 7, each with the path it carries.
\<close>

datatype MergeError = ConflictError "string list" | DuplicateKeyError string "string list"



text \<open>Modelled from the spec: deep structural equality (section 4.4); objects are compared by key, not
  by position (section 3).
\<close>

fun deepEqual :: "Value \<Rightarrow> Value \<Rightarrow> bool" where
  "deepEqual JNull JNull = True"
| "deepEqual (JBool x) (JBool y) = (x = y)"
| "deepEqual (JNumber x) (JNumber y) = (x = y)"
| "deepEqual (JString x) (JString y) = (x = y)"
| "deepEqual (JArray xs) (JArray ys) = list_all2 deepEqual xs ys"
| "deepEqual (JObject fx) (JObject fy) =
     (set (map fst fx) = set (map fst fy)
      \<and> list_all (\<lambda>(k, v). case map_of fy k of None \<Rightarrow> False | Some w \<Rightarrow> deepEqual v w) fx)"
| "deepEqual x y = False"

text \<open>Modelled from the spec: the canonical string form of a number, in decimal (section 4.3 asks for
  a canonical string representation and the tests expect \<open>2\<close> for the number 2).
\<close>

function digits :: "nat \<Rightarrow> string" where
  "digits n = (if n < 10 then [char_of (48 + n)] else digits (n div 10) @ [char_of (48 + n mod 10)])"
  by pat_completeness auto
termination
  by (relation "measure id") auto

declare digits.simps [simp del]

text \<open>Modelled from the spec: the canonical string form of an integer.
\<close>

definition showInt :: "int \<Rightarrow> string" where
  "showInt i = (if i < 0 then ''-'' @ digits (nat (- i)) else digits (nat i))"

text \<open>Modelled from the spec: \<open>MergeOptions\<close> of section 3.
\<close>

record MergeOptions =
  getArrayItemKey :: "(Value \<Rightarrow> string) option"

text \<open>Modelled from the spec: the identity key of an array item (sections 3 and 4.3). A primitive item
  has its canonical string form as key; an item of object or array type has the key the
  extractor gives and, without an extractor, no key: the merge fails with a conflict
  (section 9, open question).
\<close>

fun itemKey :: "MergeOptions \<Rightarrow> string list \<Rightarrow> Value \<Rightarrow> MergeError + string" where
  "itemKey opts path JNull = Inr ''null''"
| "itemKey opts path (JBool x) = Inr (if x then ''true'' else ''false'')"
| "itemKey opts path (JNumber i) = Inr (showInt i)"
| "itemKey opts path (JString s) = Inr s"
| "itemKey opts path item =
     (case getArrayItemKey opts of
        None \<Rightarrow> Inl (ConflictError path)
      | Some extractor \<Rightarrow> Inr (extractor item))"

text \<open>Modelled from the spec: the ArrayItemMatcher of section 4.3, which pairs every item with its key
  and fails at the first item whose key is already taken.
\<close>

fun matchItemsFrom ::
  "MergeOptions \<Rightarrow> string list \<Rightarrow> (string \<times> Value) list \<Rightarrow> Value list
     \<Rightarrow> MergeError + (string \<times> Value) list" where
  "matchItemsFrom opts path acc [] = Inr acc"
| "matchItemsFrom opts path acc (item # rest) =
     (case itemKey opts path item of
        Inl e \<Rightarrow> Inl e
      | Inr k \<Rightarrow>
          if k \<in> set (map fst acc) then Inl (DuplicateKeyError k path)
          else matchItemsFrom opts path (acc @ [(k, item)]) rest)"

text \<open>Modelled from the spec: the ArrayItemMatcher applied to a whole array.
\<close>

definition matchItems ::
  "MergeOptions \<Rightarrow> string list \<Rightarrow> Value list \<Rightarrow> MergeError + (string \<times> Value) list" where
  "matchItems opts path xs = matchItemsFrom opts path [] xs"

text \<open>Modelled from the spec: equality of two values either of which may be missing (section 4.4,
  object merge: absence is a distinguished missing value).
\<close>

definition optEqual :: "Value option \<Rightarrow> Value option \<Rightarrow> bool" where
  "optEqual x y =
     (case (x, y) of
        (None, None) \<Rightarrow> True
      | (Some v, Some w) \<Rightarrow> deepEqual v w
      | _ \<Rightarrow> False)"

text \<open>Modelled from the spec: the first four rows of the dispatch table of section 4.4 and its last
  row, for values that may be missing.
\<close>

definition leafMerge ::
  "Value option \<Rightarrow> Value option \<Rightarrow> Value option \<Rightarrow> string list \<Rightarrow> MergeError + Value option" where
  "leafMerge ov av bv path =
     (if optEqual av ov \<and> optEqual bv ov then Inr ov
      else if optEqual av ov then Inr bv
      else if optEqual bv ov then Inr av
      else if optEqual av bv then Inr av
      else Inl (ConflictError path))"

text \<open>Modelled from the spec: the result of a merge: a value or one of the two errors.
\<close>

type_synonym MergeResult = "(MergeError + Value) option"

type_synonym Merge3 = "Value \<Rightarrow> Value \<Rightarrow> Value \<Rightarrow> string list \<Rightarrow> MergeResult"

text \<open>Modelled from the spec: the fields of a value that is an object; any other value has none.
\<close>

definition fieldsOf :: "Value \<Rightarrow> (string \<times> Value) list" where
  "fieldsOf v = (case v of JObject fs \<Rightarrow> fs | _ \<Rightarrow> [])"

text \<open>Modelled from the spec: the key order of the object merge (section 4.4): the keys of \<open>o\<close>, then
  those added in \<open>a\<close>, then those added in \<open>b\<close>.
\<close>

definition mergeKeys ::
  "(string \<times> Value) list \<Rightarrow> (string \<times> Value) list \<Rightarrow> (string \<times> Value) list \<Rightarrow> string list" where
  "mergeKeys fo fa fb =
     map fst fo
     @ filter (\<lambda>k. k \<notin> set (map fst fo)) (map fst fa)
     @ filter (\<lambda>k. k \<notin> set (map fst fo) \<and> k \<notin> set (map fst fa)) (map fst fb)"

text \<open>Modelled from the spec: the object merge of section 4.4, key by key. A key present in all three
  states is merged by the recursive call with the key appended to the path; any other
  key is compared with the missing value taking part; a key that resolves to missing
  is left out.
\<close>

fun mergeFields ::
  "Merge3 \<Rightarrow> (string \<times> Value) list \<Rightarrow> (string \<times> Value) list \<Rightarrow> (string \<times> Value) list
     \<Rightarrow> string list \<Rightarrow> string list \<Rightarrow> ((MergeError + (string \<times> Value) list) option)" where
  "mergeFields merge fo fa fb path [] = Some (Inr [])"
| "mergeFields merge fo fa fb path (k # ks) =
     (let field =
        (case (map_of fo k, map_of fa k, map_of fb k) of
           (Some x, Some y, Some z) \<Rightarrow>
             (case merge x y z (path @ [k]) of
                None \<Rightarrow> None
              | Some (Inl e) \<Rightarrow> Some (Inl e)
              | Some (Inr v) \<Rightarrow> Some (Inr (Some v)))
         | (ov, av, bv) \<Rightarrow> Some (leafMerge ov av bv (path @ [k])))
      in case field of
           None \<Rightarrow> None
         | Some (Inl e) \<Rightarrow> Some (Inl e)
         | Some (Inr fv) \<Rightarrow>
             (case mergeFields merge fo fa fb path ks of
                None \<Rightarrow> None
              | Some (Inl e) \<Rightarrow> Some (Inl e)
              | Some (Inr rest) \<Rightarrow>
                  Some (Inr (case fv of None \<Rightarrow> rest | Some v \<Rightarrow> (k, v) # rest))))"

text \<open>Modelled from the spec: the type of the reconstruction, see \<open>MergeEnv\<close>.
\<close>

type_synonym Reconstruct =
  "Merge3 \<Rightarrow> string list \<Rightarrow> Index list
     \<Rightarrow> (string \<times> Value) list \<Rightarrow> (string \<times> Value) list \<Rightarrow> (string \<times> Value) list
     \<Rightarrow> MergeResult"

text \<open>Modelled from the spec: what a call of \<open>diff3\<close> depends on besides its arguments: the pairwise
  differ, the options, and the reconstruction of the output array from the records of
  \<open>diff3MergeIndices\<close>. Section 4.4 does not fix the order of the items within a
  conflict segment, so the reconstruction is a parameter; it receives the recursive
  merge, the path, the records and the matched items of the three arrays.
\<close>

record MergeEnv =
  diffCore :: DiffCore
  reconstruct :: Reconstruct
  options :: MergeOptions

text \<open>Modelled from the spec: the key sequence of an array (section 4.4); the three sequences are
  three different arrays.
\<close>

definition keySequence :: "nat \<Rightarrow> (string \<times> Value) list \<Rightarrow> string ArrayLike" where
  "keySequence r matched = JSArray r (map fst matched)"

text \<open>Modelled from the spec: the array merge of section 4.4. The three arrays are matched first, so
  a duplicate key stops the merge before any output exists (sections 4.3 and 7).
\<close>

definition arrayMerge ::
  "MergeEnv \<Rightarrow> Merge3 \<Rightarrow> Value list \<Rightarrow> Value list \<Rightarrow> Value list \<Rightarrow> string list \<Rightarrow> MergeResult" where
  "arrayMerge env merge xo xa xb path =
     (case matchItems (options env) path xo of
        Inl e \<Rightarrow> Some (Inl e)
      | Inr mo \<Rightarrow>
     (case matchItems (options env) path xa of
        Inl e \<Rightarrow> Some (Inl e)
      | Inr ma \<Rightarrow>
     (case matchItems (options env) path xb of
        Inl e \<Rightarrow> Some (Inl e)
      | Inr mb \<Rightarrow>
          reconstruct env merge path
            (diff3MergeIndices (\<lambda>s t. []) (diffCore env)
               (keySequence 0 mo) (keySequence 1 ma) (keySequence 2 mb))
            mo ma mb)))"

text \<open>Modelled from the spec: \<open>diff3\<close> of section 4.4, the dispatch table row by row;
  \<open>json-diff3.ts\<close> is not among the sources. The array merge builds the identity keys
  of \<open>o\<close>, \<open>a\<close> and \<open>b\<close>, so it is the row of three arrays; two arrays against a base
  that is none fall to the last row. The first argument bounds the depth of the
  recursion; \<open>None\<close> means that the bound was too small.
\<close>

primrec diff3F :: "nat \<Rightarrow> MergeEnv \<Rightarrow> Value \<Rightarrow> Value \<Rightarrow> Value \<Rightarrow> string list \<Rightarrow> MergeResult" where
  "diff3F 0 env o' a b path = None"
| "diff3F (Suc n) env o' a b path =
     (if deepEqual a o' \<and> deepEqual b o' then Some (Inr o')
      else if deepEqual a o' then Some (Inr b)
      else if deepEqual b o' then Some (Inr a)
      else if deepEqual a b then Some (Inr a)
      else
        (case (a, b) of
           (JObject fa, JObject fb) \<Rightarrow>
             (case mergeFields (diff3F n env) (fieldsOf o') fa fb path
                     (mergeKeys (fieldsOf o') fa fb) of
                None \<Rightarrow> None
              | Some (Inl e) \<Rightarrow> Some (Inl e)
              | Some (Inr fs) \<Rightarrow> Some (Inr (JObject fs)))
         | (JArray xa, JArray xb) \<Rightarrow>
             (case o' of
                JArray xo \<Rightarrow> arrayMerge env (diff3F n env) xo xa xb path
              | _ \<Rightarrow> Some (Inl (ConflictError path)))
         | _ \<Rightarrow> Some (Inl (ConflictError path))))"

text \<open>Modelled from the spec: a reconstruction for the examples that never reach one.
\<close>

definition noReconstruct :: Reconstruct where
  "noReconstruct merge path indices mo ma mb = Some (Inl (ConflictError path))"

text \<open>Modelled from the spec: the environment of the examples: no extractor, as in the tests on
  arrays of primitives.
\<close>

definition testEnv :: MergeEnv where
  "testEnv = \<lparr>diffCore = wholeWindowCore, reconstruct = noReconstruct,
              options = \<lparr>getArrayItemKey = None\<rparr>\<rparr>"


text \<open>Modelled from the spec: the keys of an object are distinct, at every depth.
\<close>

fun wellFormed :: "Value \<Rightarrow> bool" where
  "wellFormed (JArray xs) = list_all wellFormed xs"
| "wellFormed (JObject fs) = (distinct (map fst fs) \<and> list_all (\<lambda>(k, v). wellFormed v) fs)"
| "wellFormed v = True"


section \<open>Properties of the sweep\<close>

subsection \<open>The inner loop\<close>


lemma extendRegion_cases:
  obtains (stop) maybe hs' where "hs = maybe # hs'" "location (oRange maybe) > r"
      "extendRegion r hs = ([], hs, r)"
  | (nil) "hs = []" "extendRegion r hs = ([], [], r)"
  | (take) maybe hs' taken rest r' where "hs = maybe # hs'" "location (oRange maybe) \<le> r"
      "extendRegion (max r (upperBound (oRange maybe))) hs' = (taken, rest, r')"
      "extendRegion r hs = (maybe # taken, rest, r')"
proof (cases hs)
  case Nil
  then show ?thesis using nil by simp
next
  case (Cons h hs')
  show ?thesis
  proof (cases "location (oRange h) > r")
    case True
    with Cons show ?thesis using stop by simp
  next
    case False
    obtain t s q where e: "extendRegion (max r (upperBound (oRange h))) hs' = (t, s, q)"
      by (cases "extendRegion (max r (upperBound (oRange h))) hs'") auto
    with False Cons show ?thesis using take [of h hs' t s q] by simp
  qed
qed

lemma extendRegion_append:
  "extendRegion r hs = (taken, rest, r') \<Longrightarrow> hs = taken @ rest"
proof (induction hs arbitrary: r taken rest r')
  case Nil
  then show ?case by simp
next
  case (Cons h hs)
  show ?case
  proof (cases rule: extendRegion_cases [where r = r and hs = "h # hs"])
    case (stop maybe hs')
    with Cons.prems show ?thesis by simp
  next
    case nil
    then show ?thesis by simp
  next
    case (take maybe hs' t s q)
    with Cons.prems Cons.IH [of "max r (upperBound (oRange h))" t s q] show ?thesis by simp
  qed
qed

lemma extendRegion_mono:
  "extendRegion r hs = (taken, rest, r') \<Longrightarrow> r \<le> r'"
proof (induction hs arbitrary: r taken rest r')
  case Nil
  then show ?case by simp
next
  case (Cons h hs)
  show ?case
  proof (cases rule: extendRegion_cases [where r = r and hs = "h # hs"])
    case (stop maybe hs')
    with Cons.prems show ?thesis by simp
  next
    case nil
    then show ?thesis by simp
  next
    case (take maybe hs' t s q)
    with Cons.prems Cons.IH [of "max r (upperBound (oRange h))" t s q] show ?thesis by simp
  qed
qed

lemma extendRegion_bounded:
  "extendRegion r hs = (taken, rest, r') \<Longrightarrow> r \<le> n
     \<Longrightarrow> \<forall>h\<in>set hs. upperBound (oRange h) \<le> n \<Longrightarrow> r' \<le> n"
proof (induction hs arbitrary: r taken rest r')
  case Nil
  then show ?case by simp
next
  case (Cons h hs)
  show ?case
  proof (cases rule: extendRegion_cases [where r = r and hs = "h # hs"])
    case (stop maybe hs')
    with Cons.prems show ?thesis by simp
  next
    case nil
    then show ?thesis by simp
  next
    case (take maybe hs' t s q)
    with Cons.prems Cons.IH [of "max r (upperBound (oRange h))" t s q] show ?thesis by simp
  qed
qed

lemma extendRegion_rest_after:
  "extendRegion r hs = (taken, rest, r') \<Longrightarrow> sorted (map (\<lambda>h. location (oRange h)) hs)
     \<Longrightarrow> \<forall>h\<in>set rest. r' < location (oRange h)"
proof (induction hs arbitrary: r taken rest r')
  case Nil
  then show ?case by simp
next
  case (Cons h hs)
  show ?case
  proof (cases rule: extendRegion_cases [where r = r and hs = "h # hs"])
    case (stop maybe hs')
    with Cons.prems show ?thesis by fastforce
  next
    case nil
    then show ?thesis by simp
  next
    case (take maybe hs' t s q)
    with Cons.prems Cons.IH [of "max r (upperBound (oRange h))" t s q] show ?thesis by simp
  qed
qed

lemma sweep_runRegions:
  "sweep oLen aLen bLen hs st = runRegions oLen aLen bLen (regionsOf hs) st"
  by (induction oLen aLen bLen hs st rule: sweep.induct) (auto split: prod.splits)

lemma copyCommon_result:
  "result (copyCommon t st) =
     result st @ (if t - oOffset st > 0
                  then [OkA (t - oOffset st) (aOffset st) (Some (oOffset st)) (Some (bOffset st))]
                  else [])"
  by (simp add: copyCommon_def Let_def)

lemma copyCommon_oOffset:
  "oOffset st \<le> t \<Longrightarrow> oOffset (copyCommon t st) = t"
  by (simp add: copyCommon_def Let_def)

lemma emitSingle_oOffset: "oOffset (emitSingle hunk regionRhs st) = regionRhs"
  by (simp add: emitSingle_def Let_def)

lemma emitConflict_oOffset:
  "oOffset (emitConflict hs regionLhs regionRhs oLen aLen bLen st) = regionRhs"
  by (simp add: emitConflict_def Let_def split: prod.splits)

lemma processRegion_oOffset:
  "oOffset (processRegion oLen aLen bLen hunk taken regionRhs st) = regionRhs"
  by (simp add: processRegion_def Let_def emitSingle_oOffset emitConflict_oOffset)

lemma emitSingle_result:
  "result (emitSingle hunk regionRhs st) =
     result st @
       (if lengthR (sideRange hunk) > 0
        then [if side hunk = SideA
              then OkA (lengthR (sideRange hunk)) (location (sideRange hunk)) None None
              else OkB (lengthR (sideRange hunk)) None None (location (sideRange hunk))]
        else [])"
  by (simp add: emitSingle_def Let_def)

lemma emitConflict_result:
  "\<exists>ar br. result (emitConflict hs regionLhs regionRhs oLen aLen bLen st) =
     result st @ [Conflict ar (makeRange regionLhs (regionRhs - regionLhs)) br]"
  by (simp add: emitConflict_def Let_def split: prod.splits)

subsection \<open>The regions\<close>

lemma sortedHunks_sorted: "sorted (map (\<lambda>h. location (oRange h)) (sortedHunks m1 m2))"
  by (simp add: sortedHunks_def)

lemma set_sortedHunks:
  "set (sortedHunks m1 m2) = addHunk SideA ` set m1 \<union> addHunk SideB ` set m2"
  by (simp add: sortedHunks_def)

lemma oRange_addHunk: "oRange (addHunk s h) = res_a h"
  by (simp add: addHunk_def)

lemma sideRange_addHunk: "sideRange (addHunk s h) = res_b h"
  by (simp add: addHunk_def)

lemma side_addHunk: "side (addHunk s h) = s"
  by (simp add: addHunk_def)

lemma count_list_insort_key:
  "count_list (insort_key f x xs) y = count_list (x # xs) y"
  by (induction xs) auto

lemma count_list_sort_key: "count_list (sort_key f xs) y = count_list xs y"
  by (induction xs) (simp_all add: count_list_insort_key)

lemma count_list_sortedHunks:
  "count_list (sortedHunks m1 m2) h =
     count_list (map (addHunk SideA) m1 @ map (addHunk SideB) m2) h"
  unfolding sortedHunks_def by (rule count_list_sort_key)

lemma sortedHunks_stable:
  "filter (\<lambda>h. location (oRange h) = k) (sortedHunks m1 m2) =
     filter (\<lambda>h. location (oRange h) = k) (map (addHunk SideA) m1 @ map (addHunk SideB) m2)"
  unfolding sortedHunks_def by (rule sort_key_stable)

lemma extendRegion_touching:
  "extendRegion r hs = (taken, rest, r') \<Longrightarrow> touchingFrom r taken \<and> r' = baseEnd r taken"
proof (induction hs arbitrary: r taken rest r')
  case Nil
  then show ?case by simp
next
  case (Cons h hs)
  show ?case
  proof (cases rule: extendRegion_cases [where r = r and hs = "h # hs"])
    case (stop maybe hs')
    with Cons.prems show ?thesis by simp
  next
    case nil
    then show ?thesis by simp
  next
    case (take maybe hs' t s q)
    with Cons.prems have tk: "taken = h # t" "rest = s" "r' = q" "maybe = h" "hs' = hs" by auto
    from take(3) Cons.IH [of "max r (upperBound (oRange h))" t s q] tk
    have "touchingFrom (max r (upperBound (oRange h))) t
        \<and> q = baseEnd (max r (upperBound (oRange h))) t" by simp
    with take(2) tk show ?thesis by simp
  qed
qed

lemma regionsOf_Cons:
  "extendRegion (upperBound (oRange hunk)) hs = (taken, rest, regionRhs)
     \<Longrightarrow> regionsOf (hunk # hs) = (hunk, taken, regionRhs) # regionsOf rest"
  by simp

lemma regionsOf_member:
  "(hunk, taken, regionRhs) \<in> set (regionsOf hs)
     \<Longrightarrow> \<exists>pre post. hs = pre @ hunk # taken @ post
           \<and> extendRegion (upperBound (oRange hunk)) (taken @ post) = (taken, post, regionRhs)"
proof (induction hs rule: regionsOf.induct)
  case 1
  then show ?case by simp
next
  case (2 h hs)
  obtain t rest q where e: "extendRegion (upperBound (oRange h)) hs = (t, rest, q)"
    by (cases "extendRegion (upperBound (oRange h)) hs") auto
  have hs: "hs = t @ rest" using e by (rule extendRegion_append)
  from "2.prems" e
  consider "(hunk, taken, regionRhs) = (h, t, q)"
    | "(hunk, taken, regionRhs) \<in> set (regionsOf rest)"
    by auto
  then show ?case
  proof cases
    case 1
    with e hs have "h # hs = [] @ hunk # taken @ rest
        \<and> extendRegion (upperBound (oRange hunk)) (taken @ rest) = (taken, rest, regionRhs)"
      by simp
    then show ?thesis by blast
  next
    case 2
    from "2.IH" [OF e [symmetric] refl 2] obtain pre post where
      "rest = pre @ hunk # taken @ post"
      "extendRegion (upperBound (oRange hunk)) (taken @ post) = (taken, post, regionRhs)"
      by blast
    with hs have "h # hs = (h # t @ pre) @ hunk # taken @ post
        \<and> extendRegion (upperBound (oRange hunk)) (taken @ post) = (taken, post, regionRhs)"
      by simp
    then show ?thesis by blast
  qed
qed

lemma concat_regionsOf: "concat (map regionHunks (regionsOf hs)) = hs"
proof (induction hs rule: regionsOf.induct)
  case 1
  then show ?case by simp
next
  case (2 h hs)
  obtain t rest q where e: "extendRegion (upperBound (oRange h)) hs = (t, rest, q)"
    by (cases "extendRegion (upperBound (oRange h)) hs") auto
  have hs: "hs = t @ rest" using e by (rule extendRegion_append)
  show ?case using "2.IH" [OF e [symmetric] refl] e hs by (simp add: regionHunks_def)
qed

lemma regionsOf_first:
  "regionsOf hs = (hunk, taken, regionRhs) # rs \<Longrightarrow> \<exists>hs'. hs = hunk # hs'"
  by (cases hs) (auto split: prod.splits)

lemma regionsApart_regionsOf:
  "sorted (map (\<lambda>h. location (oRange h)) hs) \<Longrightarrow> regionsApart (regionsOf hs)"
proof (induction hs rule: regionsOf.induct)
  case 1
  then show ?case by simp
next
  case (2 h hs)
  obtain t rest q where e: "extendRegion (upperBound (oRange h)) hs = (t, rest, q)"
    by (cases "extendRegion (upperBound (oRange h)) hs") auto
  have hs: "hs = t @ rest" using e by (rule extendRegion_append)
  have srt: "sorted (map (\<lambda>h. location (oRange h)) hs)" using "2.prems" by simp
  have after: "\<forall>h\<in>set rest. q < location (oRange h)"
    using extendRegion_rest_after [OF e srt] .
  have srt_rest: "sorted (map (\<lambda>h. location (oRange h)) rest)"
    using srt hs by (simp add: sorted_append)
  have IH: "regionsApart (regionsOf rest)" using "2.IH" [OF e [symmetric] refl srt_rest] .
  show ?case
  proof (cases "regionsOf rest")
    case Nil
    with e show ?thesis by simp
  next
    case (Cons r rs)
    obtain h' t' q' where r: "r = (h', t', q')" by (cases r) auto
    from Cons r obtain hs' where "rest = h' # hs'" using regionsOf_first by blast
    with after have "q < location (oRange h')" by simp
    with IH Cons r e show ?thesis by simp
  qed
qed

lemma sorted_wrt_by_side:
  assumes "sorted_wrt Q (filter (\<lambda>h. side h = SideA) hs)"
    and "sorted_wrt Q (filter (\<lambda>h. side h = SideB) hs)"
  shows "sorted_wrt (\<lambda>x y. side x = side y \<longrightarrow> Q x y) hs"
  using assms
proof (induction hs)
  case Nil
  then show ?case by simp
next
  case (Cons h hs)
  then show ?case by (cases "side h") auto
qed

lemma separated_sorted:
  assumes "separated m"
  shows "sorted (map (\<lambda>h. location (oRange h)) (map (addHunk s) m))"
proof -
  have "sorted_wrt (\<lambda>x y. location (res_a x) \<le> location (res_a y)) m"
    using assms unfolding separated_def
  proof (induction m)
    case Nil
    then show ?case by simp
  next
    case (Cons h m)
    then show ?case by (fastforce simp: upperBound_def)
  qed
  then show ?thesis
    by (simp add: sorted_map sorted_wrt_map oRange_addHunk comp_def)
qed

lemma filter_side_map_addHunk:
  "filter (\<lambda>h. side h = s) (map (addHunk s') m) = (if s = s' then map (addHunk s') m else [])"
  by (induction m) (auto simp: side_addHunk)

lemma filter_side_sortedHunks:
  assumes "separated m1" and "separated m2"
  shows "filter (\<lambda>h. side h = SideA) (sortedHunks m1 m2) = map (addHunk SideA) m1"
    and "filter (\<lambda>h. side h = SideB) (sortedHunks m1 m2) = map (addHunk SideB) m2"
  using separated_sorted [OF assms(1), of SideA] separated_sorted [OF assms(2), of SideB]
  by (simp_all add: sortedHunks_def filter_sort filter_side_map_addHunk sort_key_id_if_sorted)

lemma sidesApart_sortedHunks:
  assumes "separated m1" and "separated m2"
  shows "sidesApart (sortedHunks m1 m2)"
  unfolding sidesApart_def
proof (rule sorted_wrt_by_side)
  show "sorted_wrt (\<lambda>x y. upperBound (oRange x) < location (oRange y))
          (filter (\<lambda>h. side h = SideA) (sortedHunks m1 m2))"
    using assms(1)
    by (simp add: filter_side_sortedHunks [OF assms] sorted_wrt_map oRange_addHunk separated_def)
  show "sorted_wrt (\<lambda>x y. upperBound (oRange x) < location (oRange y))
          (filter (\<lambda>h. side h = SideB) (sortedHunks m1 m2))"
    using assms(2)
    by (simp add: filter_side_sortedHunks [OF assms] sorted_wrt_map oRange_addHunk separated_def)
qed

lemma region_both_sides:
  assumes "sidesApart hs" and "(hunk, taken, regionRhs) \<in> set (regionsOf hs)"
  shows "taken \<noteq> [] \<longleftrightarrow> hasSide SideA (hunk # taken) \<and> hasSide SideB (hunk # taken)"
proof
  assume ne: "taken \<noteq> []"
  then obtain t ts where t: "taken = t # ts" by (cases taken) auto
  from regionsOf_member [OF assms(2)] obtain pre post where
    hs: "hs = pre @ hunk # taken @ post" and
    e: "extendRegion (upperBound (oRange hunk)) (taken @ post) = (taken, post, regionRhs)"
    by blast
  from extendRegion_touching [OF e] t
  have touch: "location (oRange t) \<le> upperBound (oRange hunk)" by simp
  from assms(1) hs t
  have "side hunk = side t \<longrightarrow> upperBound (oRange hunk) < location (oRange t)"
    by (simp add: sidesApart_def sorted_wrt_append)
  with touch have "side hunk \<noteq> side t" by auto
  then show "hasSide SideA (hunk # taken) \<and> hasSide SideB (hunk # taken)"
    using t by (cases "side hunk"; cases "side t") (auto simp: hasSide_def)
next
  assume "hasSide SideA (hunk # taken) \<and> hasSide SideB (hunk # taken)"
  then show "taken \<noteq> []" by (auto simp: hasSide_def)
qed

lemma list_ex_isConflict_processRegion:
  "list_ex isConflict (drop (length (result st))
      (result (processRegion oLen aLen bLen hunk taken regionRhs st))) \<longleftrightarrow> taken \<noteq> []"
proof (cases "taken = []")
  case True
  then show ?thesis
    by (simp add: processRegion_def Let_def emitSingle_result copyCommon_result)
next
  case False
  obtain ar br where
    "result (emitConflict (hunk # taken) (location (oRange hunk)) regionRhs oLen aLen bLen
               (copyCommon (location (oRange hunk)) st)) =
     result (copyCommon (location (oRange hunk)) st) @
       [Conflict ar (makeRange (location (oRange hunk)) (regionRhs - location (oRange hunk))) br]"
    using emitConflict_result by blast
  with False show ?thesis
    by (simp add: processRegion_def Let_def copyCommon_result)
qed

lemma baseEnd_fold: "baseEnd r hs = fold max (map (\<lambda>h. upperBound (oRange h)) hs) r"
  by (induction hs arbitrary: r) (simp_all add: max.commute)

lemma baseEnd_coverHi:
  "baseEnd (upperBound (oRange hunk)) taken = coverHi (map oRange (hunk # taken))"
proof -
  have "Max (set (upperBound (oRange hunk) # map (\<lambda>h. upperBound (oRange h)) taken)) =
      fold max (map (\<lambda>h. upperBound (oRange h)) taken) (upperBound (oRange hunk))"
    by (rule Max.set_eq_fold)
  then show ?thesis by (simp add: baseEnd_fold coverHi_def comp_def)
qed

lemma sorted_coverLo:
  assumes "sorted (map (\<lambda>h. location (oRange h)) (hunk # taken))"
  shows "coverLo (map oRange (hunk # taken)) = location (oRange hunk)"
proof -
  have "Min (insert (location (oRange hunk)) ((\<lambda>h. location (oRange h)) ` set taken))
      = location (oRange hunk)"
    using assms by (intro Min_eqI) auto
  then show ?thesis by (simp add: coverLo_def comp_def image_image)
qed

subsection \<open>C1: the base sequence is accounted for\<close>

lemma mergeHunks_runRegions:
  "mergeHunks m1 m2 oLen aLen bLen =
     result (copyCommon oLen
       (runRegions oLen aLen bLen (regionsOf (sortedHunks m1 m2)) initialState))"
  by (simp add: mergeHunks_def sweep_runRegions)

lemma processRegion_result_steps:
  "result (processRegion oLen aLen bLen hunk taken regionRhs st) =
     result st @ snd (stepBetween st (copyCommon (location (oRange hunk)) st))
       @ snd (stepBetween (copyCommon (location (oRange hunk)) st)
                (processRegion oLen aLen bLen hunk taken regionRhs st))"
proof (cases "taken = []")
  case True
  then show ?thesis
    by (simp add: stepBetween_def processRegion_def Let_def emitSingle_result copyCommon_result)
next
  case False
  obtain ar br where
    "result (emitConflict (hunk # taken) (location (oRange hunk)) regionRhs oLen aLen bLen
               (copyCommon (location (oRange hunk)) st)) =
     result (copyCommon (location (oRange hunk)) st) @
       [Conflict ar (makeRange (location (oRange hunk)) (regionRhs - location (oRange hunk))) br]"
    using emitConflict_result by blast
  with False show ?thesis
    by (simp add: stepBetween_def processRegion_def Let_def copyCommon_result)
qed

lemma chained_append:
  "chained p q xs \<Longrightarrow> chained q n ys \<Longrightarrow> chained p n (xs @ ys)"
  by (induction xs arbitrary: p) auto

lemma chained_le: "chained p n rs \<Longrightarrow> p \<le> n"
proof (induction rs arbitrary: p)
  case Nil
  then show ?case by simp
next
  case (Cons r rs)
  from Cons.prems have "location r = p" "0 \<le> lengthR r" "chained (upperBound r) n rs"
    by simp_all
  with Cons.IH [of "upperBound r"] show ?case by (simp add: upperBound_def)
qed

lemma commonRecords_iff:
  "commonRecords sp recs \<longleftrightarrow>
     (recs = [] \<and> lengthR sp = 0)
     \<or> (0 < lengthR sp \<and> (\<exists>ai bi. recs = [OkA (lengthR sp) ai (Some (location sp)) (Some bi)]))"
  by (cases "(sp, recs)" rule: commonRecords.cases) auto

lemma conflictRecords_iff:
  "conflictRecords sp recs \<longleftrightarrow> (\<exists>ar br. recs = [Conflict ar sp br])"
  by (cases "(sp, recs)" rule: conflictRecords.cases) auto

lemma oneSidedRecords_iff:
  "oneSidedRecords hunk recs \<longleftrightarrow>
     (recs = [] \<and> lengthR (sideRange hunk) \<le> 0)
     \<or> (0 < lengthR (sideRange hunk)
        \<and> ((side hunk = SideA \<and> (\<exists>ai. recs = [OkA (lengthR (sideRange hunk)) ai None None]))
           \<or> (side hunk = SideB \<and> (\<exists>bi. recs = [OkB (lengthR (sideRange hunk)) None None bi]))))"
  by (cases "(hunk, recs)" rule: oneSidedRecords.cases) auto

lemma stepAccounts_copyCommon:
  assumes "oOffset st \<le> t"
  shows "stepAccounts (CommonStep, stepBetween st (copyCommon t st))"
proof (cases "0 < t - oOffset st")
  case True
  then show ?thesis
    by (simp add: stepBetween_def copyCommon_result copyCommon_oOffset [OF assms]
        makeRange_def)
next
  case False
  with assms have "t = oOffset st" by simp
  then show ?thesis
    by (simp add: stepBetween_def copyCommon_result makeRange_def copyCommon_def Let_def)
qed

lemma stepAccounts_region:
  assumes lhs: "oOffset st \<le> location (oRange hunk)"
    and srt: "sorted (map (\<lambda>h. location (oRange h)) (hunk # taken))"
    and rhs: "regionRhs = baseEnd (upperBound (oRange hunk)) taken"
  shows "stepAccounts (RegionStep hunk taken,
           stepBetween (copyCommon (location (oRange hunk)) st)
             (processRegion oLen aLen bLen hunk taken regionRhs st))"
proof -
  define st1 where "st1 = copyCommon (location (oRange hunk)) st"
  define st2 where "st2 = processRegion oLen aLen bLen hunk taken regionRhs st"
  obtain sp rs where sb: "stepBetween st1 st2 = (sp, rs)" by (cases "stepBetween st1 st2")
  have o1: "oOffset st1 = location (oRange hunk)"
    unfolding st1_def using lhs by (rule copyCommon_oOffset)
  have o2: "oOffset st2 = regionRhs" unfolding st2_def by (rule processRegion_oOffset)
  have lo: "coverLo (map oRange (hunk # taken)) = location (oRange hunk)"
    using srt by (rule sorted_coverLo)
  have hi: "coverHi (map oRange (hunk # taken)) = regionRhs"
    unfolding rhs by (rule baseEnd_coverHi [symmetric])
  have sp: "sp = makeRange (location (oRange hunk)) (regionRhs - location (oRange hunk))"
    using sb by (simp add: stepBetween_def o1 o2)
  have span: "sp = covering (map oRange (hunk # taken))"
    unfolding covering_def lo hi by (rule sp)
  have rs: "rs = drop (length (result st1)) (result st2)"
    using sb by (simp add: stepBetween_def)
  have recs: "if taken = [] then oneSidedRecords hunk rs else conflictRecords sp rs"
  proof (cases "taken = []")
    case True
    have sd: "side hunk = SideA \<or> side hunk = SideB" by (cases "side hunk") simp_all
    have "result st2 = result (emitSingle hunk regionRhs st1)"
      using True by (simp add: st2_def st1_def processRegion_def Let_def)
    then have "rs =
       (if lengthR (sideRange hunk) > 0
        then [if side hunk = SideA
              then OkA (lengthR (sideRange hunk)) (location (sideRange hunk)) None None
              else OkB (lengthR (sideRange hunk)) None None (location (sideRange hunk))]
        else [])"
      unfolding rs emitSingle_result by simp
    with sd have "oneSidedRecords hunk rs" by auto
    with True show ?thesis by simp
  next
    case False
    obtain ar br where c:
      "result (emitConflict (hunk # taken) (location (oRange hunk)) regionRhs oLen aLen bLen
               st1) =
       result st1 @
         [Conflict ar (makeRange (location (oRange hunk)) (regionRhs - location (oRange hunk)))
            br]"
      using emitConflict_result by blast
    have "result st2 =
        result (emitConflict (hunk # taken) (location (oRange hunk)) regionRhs oLen aLen bLen
                  st1)"
      using False by (simp add: st2_def st1_def processRegion_def Let_def)
    then have "rs = [Conflict ar sp br]" unfolding rs c sp by simp
    then have "conflictRecords sp rs" by simp
    with False show ?thesis by simp
  qed
  have "stepAccounts (RegionStep hunk taken, stepBetween st1 st2)"
    unfolding sb stepAccounts.simps using span recs by blast
  then show ?thesis unfolding st1_def st2_def .
qed

lemma regionSteps_invariant:
  assumes "sorted (map (\<lambda>h. location (oRange h)) hs)"
    and "\<forall>h\<in>set hs. oOffset st \<le> location (oRange h) \<and> 0 \<le> lengthR (oRange h)
           \<and> upperBound (oRange h) \<le> n"
    and "oOffset st \<le> n"
  shows "chained (oOffset st) (oOffset (runRegions oLen aLen bLen (regionsOf hs) st))
           (map stepSpan (regionSteps oLen aLen bLen (regionsOf hs) st))
       \<and> oOffset (runRegions oLen aLen bLen (regionsOf hs) st) \<le> n
       \<and> list_all stepAccounts (regionSteps oLen aLen bLen (regionsOf hs) st)
       \<and> result (runRegions oLen aLen bLen (regionsOf hs) st) =
           result st @ concat (map stepRecords (regionSteps oLen aLen bLen (regionsOf hs) st))
       \<and> concat (map stepHunks (regionSteps oLen aLen bLen (regionsOf hs) st)) = hs"
  using assms
proof (induction hs arbitrary: st rule: regionsOf.induct)
  case 1
  then show ?case by simp
next
  case (2 hunk hs)
  obtain taken rest regionRhs where
    e: "extendRegion (upperBound (oRange hunk)) hs = (taken, rest, regionRhs)"
    by (cases "extendRegion (upperBound (oRange hunk)) hs") auto
  define st1 where "st1 = copyCommon (location (oRange hunk)) st"
  define st2 where "st2 = processRegion oLen aLen bLen hunk taken regionRhs st"
  have hs: "hs = taken @ rest" using e by (rule extendRegion_append)
  have lhs: "oOffset st \<le> location (oRange hunk)" using "2.prems" by simp
  have o1: "oOffset st1 = location (oRange hunk)"
    unfolding st1_def using lhs by (rule copyCommon_oOffset)
  have o2: "oOffset st2 = regionRhs" unfolding st2_def by (rule processRegion_oOffset)
  have ub: "upperBound (oRange hunk) \<le> regionRhs" using e by (rule extendRegion_mono)
  have len: "0 \<le> lengthR (oRange hunk)" using "2.prems" by simp
  have le: "location (oRange hunk) \<le> regionRhs" using ub len by (simp add: upperBound_def)
  have rn: "regionRhs \<le> n"
    using e "2.prems" by (intro extendRegion_bounded [OF e]) auto
  have srt: "sorted (map (\<lambda>h. location (oRange h)) hs)" using "2.prems"(1) by simp
  have after: "\<forall>h\<in>set rest. regionRhs < location (oRange h)"
    using extendRegion_rest_after [OF e srt] .
  have srt_rest: "sorted (map (\<lambda>h. location (oRange h)) rest)"
    using srt hs by (simp add: sorted_append)
  have srt_region: "sorted (map (\<lambda>h. location (oRange h)) (hunk # taken))"
    using "2.prems"(1) hs by (simp add: sorted_append)
  have pre: "\<forall>h\<in>set rest. oOffset st2 \<le> location (oRange h) \<and> 0 \<le> lengthR (oRange h)
           \<and> upperBound (oRange h) \<le> n"
    using after "2.prems"(2) hs o2 by auto
  note IH = "2.IH" [OF e [symmetric] refl srt_rest pre, unfolded o2, OF rn]
  have rhs: "regionRhs = baseEnd (upperBound (oRange hunk)) taken"
    using extendRegion_touching [OF e] by simp
  obtain sp1 rs1 where b1: "stepBetween st st1 = (sp1, rs1)" by (cases "stepBetween st st1")
  obtain sp2 rs2 where b2: "stepBetween st1 st2 = (sp2, rs2)" by (cases "stepBetween st1 st2")
  have s1: "stepAccounts (CommonStep, sp1, rs1)"
    using stepAccounts_copyCommon [OF lhs] unfolding st1_def [symmetric] b1 .
  have s2: "stepAccounts (RegionStep hunk taken, sp2, rs2)"
    using stepAccounts_region [OF lhs srt_region rhs, of oLen aLen bLen]
    unfolding st1_def [symmetric] st2_def [symmetric] b2 .
  have sp1: "sp1 = makeRange (oOffset st) (location (oRange hunk) - oOffset st)"
    using b1 by (simp add: stepBetween_def o1)
  have sp2: "sp2 = makeRange (location (oRange hunk)) (regionRhs - location (oRange hunk))"
    using b2 by (simp add: stepBetween_def o1 o2)
  have res: "result st2 = result st @ rs1 @ rs2"
    using processRegion_result_steps [of oLen aLen bLen hunk taken regionRhs st]
    unfolding st1_def [symmetric] st2_def [symmetric] b1 b2 by simp
  have steps: "regionSteps oLen aLen bLen (regionsOf (hunk # hs)) st =
      (CommonStep, sp1, rs1) # (RegionStep hunk taken, sp2, rs2)
        # regionSteps oLen aLen bLen (regionsOf rest) st2"
    unfolding regionsOf_Cons [OF e]
    by (simp add: Let_def st1_def [symmetric] st2_def [symmetric] b1 b2)
  have run: "runRegions oLen aLen bLen (regionsOf (hunk # hs)) st =
      runRegions oLen aLen bLen (regionsOf rest) st2"
    unfolding regionsOf_Cons [OF e] by (simp add: st2_def)
  have ch: "chained (oOffset st) (oOffset (runRegions oLen aLen bLen (regionsOf rest) st2))
      (sp1 # sp2 # map stepSpan (regionSteps oLen aLen bLen (regionsOf rest) st2))"
    using IH lhs le by (simp add: sp1 sp2 makeRange_def upperBound_def)
  show ?case
    unfolding steps run using IH s1 s2 res ch hs by (simp del: stepAccounts.simps)
qed

lemma lengthR_covering_single: "lengthR (covering [r]) = lengthR r"
  by (simp add: covering_def coverLo_def coverHi_def makeRange_def upperBound_def)

lemma steps_accountsFrom:
  assumes "chained p n (map stepSpan steps)" and "list_all stepAccounts steps"
    and "\<not> list_ex loneDeletion steps"
  shows "accountsFrom n p (concat (map stepRecords steps))"
  using assms
proof (induction steps arbitrary: p)
  case Nil
  then show ?case by simp
next
  case (Cons s steps)
  obtain k sp recs where s: "s = (k, sp, recs)" by (cases s)
  from Cons.prems(1) s have loc: "location sp = p" and len: "0 \<le> lengthR sp"
    and ch: "chained (upperBound sp) n (map stepSpan steps)" by simp_all
  have IH: "accountsFrom n (upperBound sp) (concat (map stepRecords steps))"
    using Cons.IH [OF ch] Cons.prems(2,3) by simp
  have le: "upperBound sp \<le> n" using ch by (rule chained_le)
  have pq: "p \<le> upperBound sp" using loc len by (simp add: upperBound_def)
  have empty: "accountsFrom n p (concat (map stepRecords steps))" if "lengthR sp = 0"
    using IH that loc by (simp add: upperBound_def)
  show ?case
  proof (cases k)
    case CommonStep
    with Cons.prems(2) s have "commonRecords sp recs" by simp
    then consider "recs = []" "lengthR sp = 0"
      | ai bi where "recs = [OkA (lengthR sp) ai (Some (location sp)) (Some bi)]"
      unfolding commonRecords_iff by blast
    then show ?thesis
    proof cases
      case 1
      with empty s show ?thesis by simp
    next
      case 2
      with IH s loc len show ?thesis by (simp add: upperBound_def)
    qed
  next
    case (RegionStep hunk taken)
    with Cons.prems(2) s have "stepAccounts (RegionStep hunk taken, sp, recs)"
      by (simp del: stepAccounts.simps)
    then have sp: "sp = covering (map oRange (hunk # taken))"
      and rc: "if taken = [] then oneSidedRecords hunk recs else conflictRecords sp recs"
      unfolding stepAccounts.simps by blast+
    show ?thesis
    proof (cases "taken = []")
      case True
      with rc have "oneSidedRecords hunk recs" by simp
      then consider "recs = []" "lengthR (sideRange hunk) \<le> 0"
        | ai where "recs = [OkA (lengthR (sideRange hunk)) ai None None]"
        | bi where "recs = [OkB (lengthR (sideRange hunk)) None None bi]"
        unfolding oneSidedRecords_iff by blast
      then show ?thesis
      proof cases
        case 1
        from Cons.prems(3) s RegionStep True 1 have "lengthR (oRange hunk) \<le> 0" by simp
        with sp True len have "lengthR sp = 0" by (simp add: lengthR_covering_single)
        with empty 1 s show ?thesis by simp
      next
        case 2
        from IH pq le have "\<exists>q\<in>{p..n}. accountsFrom n q (concat (map stepRecords steps))"
          by auto
        with 2 s show ?thesis by simp
      next
        case 3
        from IH pq le have "\<exists>q\<in>{p..n}. accountsFrom n q (concat (map stepRecords steps))"
          by auto
        with 3 s show ?thesis by simp
      qed
    next
      case False
      with rc obtain ar br where "recs = [Conflict ar sp br]"
        unfolding conflictRecords_iff by auto
      with IH s loc len show ?thesis by simp
    qed
  qed
qed

lemma records_pin_position:
  assumes "sorted (map (\<lambda>h. location (oRange h)) hs)"
    and "\<forall>h\<in>set hs. oOffset st \<le> location (oRange h) \<and> 0 \<le> lengthR (oRange h)
           \<and> upperBound (oRange h) \<le> n"
    and "oOffset st \<le> n"
    and "accountsFrom n q
           (concat (map stepRecords (regionSteps oLen aLen bLen (regionsOf hs) st))
            @ snd (stepBetween (runRegions oLen aLen bLen (regionsOf hs) st)
                     (copyCommon n (runRegions oLen aLen bLen (regionsOf hs) st))))"
    and "q = oOffset st \<or> (\<forall>h\<in>set hs. oOffset st < location (oRange h))"
  shows "q = oOffset st
       \<and> \<not> list_ex loneDeletion (regionSteps oLen aLen bLen (regionsOf hs) st)"
  using assms
proof (induction hs arbitrary: st q rule: regionsOf.induct)
  case 1
  obtain sp rs where sb: "stepBetween st (copyCommon n st) = (sp, rs)"
    by (cases "stepBetween st (copyCommon n st)")
  have sp: "sp = makeRange (oOffset st) (n - oOffset st)"
    using sb "1.prems"(3) by (simp add: stepBetween_def copyCommon_oOffset)
  have "stepAccounts (CommonStep, sp, rs)"
    using stepAccounts_copyCommon [OF "1.prems"(3)] unfolding sb .
  then have "commonRecords sp rs" by simp
  then consider (none) "rs = []" "lengthR sp = 0"
    | (one) ai bi where "rs = [OkA (lengthR sp) ai (Some (location sp)) (Some bi)]"
    unfolding commonRecords_iff by blast
  moreover have fin: "accountsFrom n q rs" using "1.prems"(4) by (simp add: sb)
  moreover have loc: "location sp = oOffset st" and len: "lengthR sp = n - oOffset st"
    using sp by (simp_all add: makeRange_def)
  ultimately have "q = oOffset st"
  proof cases
    case none
    from fin none(1) have "q = n" by simp
    with none(2) len show ?thesis by simp
  next
    case one
    from fin have "location sp = q" unfolding one by simp
    with loc show ?thesis by simp
  qed
  then show ?case by simp
next
  case (2 hunk hs)
  obtain taken rest regionRhs where
    e: "extendRegion (upperBound (oRange hunk)) hs = (taken, rest, regionRhs)"
    by (cases "extendRegion (upperBound (oRange hunk)) hs") auto
  define st1 where "st1 = copyCommon (location (oRange hunk)) st"
  define st2 where "st2 = processRegion oLen aLen bLen hunk taken regionRhs st"
  define fin where "fin = concat (map stepRecords
      (regionSteps oLen aLen bLen (regionsOf rest) st2))
      @ snd (stepBetween (runRegions oLen aLen bLen (regionsOf rest) st2)
               (copyCommon n (runRegions oLen aLen bLen (regionsOf rest) st2)))"
  have hs: "hs = taken @ rest" using e by (rule extendRegion_append)
  have lhs: "oOffset st \<le> location (oRange hunk)" using "2.prems"(2) by simp
  have o1: "oOffset st1 = location (oRange hunk)"
    unfolding st1_def using lhs by (rule copyCommon_oOffset)
  have o2: "oOffset st2 = regionRhs" unfolding st2_def by (rule processRegion_oOffset)
  have rn: "regionRhs \<le> n"
    using e "2.prems"(2) by (intro extendRegion_bounded [OF e]) auto
  have o2n: "oOffset st2 \<le> n" using rn o2 by simp
  have srt: "sorted (map (\<lambda>h. location (oRange h)) hs)" using "2.prems"(1) by simp
  have after: "\<forall>h\<in>set rest. regionRhs < location (oRange h)"
    using extendRegion_rest_after [OF e srt] .
  have srt_rest: "sorted (map (\<lambda>h. location (oRange h)) rest)"
    using srt hs by (simp add: sorted_append)
  have srt_region: "sorted (map (\<lambda>h. location (oRange h)) (hunk # taken))"
    using "2.prems"(1) hs by (simp add: sorted_append)
  have pre: "\<forall>h\<in>set rest. oOffset st2 \<le> location (oRange h) \<and> 0 \<le> lengthR (oRange h)
           \<and> upperBound (oRange h) \<le> n"
    using after "2.prems"(2) hs o2 by auto
  have pinned: "\<forall>h\<in>set rest. oOffset st2 < location (oRange h)"
    using after o2 by simp
  have IH: "q' = oOffset st2
      \<and> \<not> list_ex loneDeletion (regionSteps oLen aLen bLen (regionsOf rest) st2)"
    if "accountsFrom n q' fin" for q'
    using "2.IH" [OF e [symmetric] refl srt_rest pre o2n that [unfolded fin_def]] pinned
    by blast
  have rhs: "regionRhs = baseEnd (upperBound (oRange hunk)) taken"
    using extendRegion_touching [OF e] by simp
  obtain sp1 rs1 where b1: "stepBetween st st1 = (sp1, rs1)" by (cases "stepBetween st st1")
  obtain sp2 rs2 where b2: "stepBetween st1 st2 = (sp2, rs2)" by (cases "stepBetween st1 st2")
  have s1: "stepAccounts (CommonStep, sp1, rs1)"
    using stepAccounts_copyCommon [OF lhs] unfolding st1_def [symmetric] b1 .
  have s2: "stepAccounts (RegionStep hunk taken, sp2, rs2)"
    using stepAccounts_region [OF lhs srt_region rhs, of oLen aLen bLen]
    unfolding st1_def [symmetric] st2_def [symmetric] b2 .
  have sp1: "sp1 = makeRange (oOffset st) (location (oRange hunk) - oOffset st)"
    using b1 by (simp add: stepBetween_def o1)
  have sp2: "sp2 = makeRange (location (oRange hunk)) (regionRhs - location (oRange hunk))"
    using b2 by (simp add: stepBetween_def o1 o2)
  have steps: "regionSteps oLen aLen bLen (regionsOf (hunk # hs)) st =
      (CommonStep, sp1, rs1) # (RegionStep hunk taken, sp2, rs2)
        # regionSteps oLen aLen bLen (regionsOf rest) st2"
    unfolding regionsOf_Cons [OF e]
    by (simp add: Let_def st1_def [symmetric] st2_def [symmetric] b1 b2)
  have run: "runRegions oLen aLen bLen (regionsOf (hunk # hs)) st =
      runRegions oLen aLen bLen (regionsOf rest) st2"
    unfolding regionsOf_Cons [OF e] by (simp add: st2_def)
  have walk: "accountsFrom n q (rs1 @ rs2 @ fin)"
    using "2.prems"(4) unfolding steps run fin_def by simp
  from s1 have "commonRecords sp1 rs1" by simp
  then consider "rs1 = []" "lengthR sp1 = 0"
    | ai bi where "rs1 = [OkA (lengthR sp1) ai (Some (location sp1)) (Some bi)]"
    unfolding commonRecords_iff by blast
  then have q: "q = oOffset st" and w1: "accountsFrom n (location (oRange hunk)) (rs2 @ fin)"
  proof -
    assume c: "\<And>thesis. (rs1 = [] \<Longrightarrow> lengthR sp1 = 0 \<Longrightarrow> thesis)
        \<Longrightarrow> (\<And>ai bi. rs1 = [OkA (lengthR sp1) ai (Some (location sp1)) (Some bi)] \<Longrightarrow> thesis)
        \<Longrightarrow> thesis"
    have "q = oOffset st \<and> accountsFrom n (location (oRange hunk)) (rs2 @ fin)"
    proof (rule c)
      assume 1: "rs1 = []" "lengthR sp1 = 0"
      from 1(2) sp1 have eq: "location (oRange hunk) = oOffset st" by (simp add: makeRange_def)
      with "2.prems"(5) have "q = oOffset st" by auto
      with walk 1(1) eq show ?thesis by simp
    next
      fix ai bi
      assume 2: "rs1 = [OkA (lengthR sp1) ai (Some (location sp1)) (Some bi)]"
      have l1: "location sp1 = oOffset st"
        and n1: "lengthR sp1 = location (oRange hunk) - oOffset st"
        using sp1 by (simp_all add: makeRange_def)
      from walk have "location sp1 = q \<and> accountsFrom n (q + lengthR sp1) (rs2 @ fin)"
        unfolding 2 by simp
      then have q: "q = oOffset st" and w: "accountsFrom n (q + lengthR sp1) (rs2 @ fin)"
        using l1 by simp_all
      have "q + lengthR sp1 = location (oRange hunk)" unfolding q n1 by simp
      with q w show ?thesis by simp
    qed
    then show "q = oOffset st" and "accountsFrom n (location (oRange hunk)) (rs2 @ fin)"
      by simp_all
  qed
  from s2 have sp2c: "sp2 = covering (map oRange (hunk # taken))"
    and rc: "if taken = [] then oneSidedRecords hunk rs2 else conflictRecords sp2 rs2"
    unfolding stepAccounts.simps by blast+
  have "\<not> loneDeletion (RegionStep hunk taken, sp2, rs2)
      \<and> \<not> list_ex loneDeletion (regionSteps oLen aLen bLen (regionsOf rest) st2)"
  proof (cases "taken = []")
    case False
    with rc obtain ar br where "rs2 = [Conflict ar sp2 br]"
      unfolding conflictRecords_iff by auto
    with w1 sp2 have "accountsFrom n regionRhs fin"
      by (simp add: makeRange_def upperBound_def)
    with IH [of regionRhs] False show ?thesis by simp
  next
    case True
    with rhs have ub: "regionRhs = upperBound (oRange hunk)" by simp
    from True rc have "oneSidedRecords hunk rs2" by simp
    then consider "rs2 = []" "lengthR (sideRange hunk) \<le> 0"
      | ai where "rs2 = [OkA (lengthR (sideRange hunk)) ai None None]"
          "0 < lengthR (sideRange hunk)"
      | bi where "rs2 = [OkB (lengthR (sideRange hunk)) None None bi]"
          "0 < lengthR (sideRange hunk)"
      unfolding oneSidedRecords_iff by blast
    then show ?thesis
    proof cases
      case 1
      with w1 have "accountsFrom n (location (oRange hunk)) fin" by simp
      from IH [OF this] o2 ub have "lengthR (oRange hunk) = 0"
        and "\<not> list_ex loneDeletion (regionSteps oLen aLen bLen (regionsOf rest) st2)"
        by (simp_all add: upperBound_def)
      then show ?thesis by simp
    next
      case 2
      with w1 obtain q' where "accountsFrom n q' fin" by auto
      from IH [OF this] 2 show ?thesis by simp
    next
      case 3
      with w1 obtain q' where "accountsFrom n q' fin" by auto
      from IH [OF this] 3 show ?thesis by simp
    qed
  qed
  with q show ?case unfolding steps by simp
qed

text \<open>
  C1 (as amended). The steps of a run account for the base sequence exactly once. Their
  base spans follow one another from 0 to \<open>o.length\<close> with no gap and no overlap, and the
  records they push are, in order, the list \<open>diff3MergeIndices\<close> returns. The steps of
  the regions hold, in order, the sorted hunks, each hunk of the two diffs once. Every
  step pushes the one record that stands for its span: a common region an \<open>okA\<close> record
  that carries the span, a conflict region a conflict record whose \<open>oRange\<close> is the span,
  a region of one hunk an \<open>okA\<close> or \<open>okB\<close> record of its side range; only a common region
  with an empty span and a region of one hunk with an empty side range push none. So the
  records alone account for the base sequence exactly when no region consists of a single
  pure deletion, whose base span is consumed without a record. The hypothesis is that the
  base ranges of both diffs lie within the base sequence.
\<close>

theorem mergeSteps_cover_base:
  assumes "0 \<le> oLen" and "\<forall>h\<in>set m1 \<union> set m2. baseWithin oLen h"
  shows "concat (map stepRecords (mergeSteps m1 m2 oLen aLen bLen))
           = mergeHunks m1 m2 oLen aLen bLen
       \<and> concat (map stepHunks (mergeSteps m1 m2 oLen aLen bLen)) = sortedHunks m1 m2
       \<and> (\<forall>h. count_list (concat (map stepHunks (mergeSteps m1 m2 oLen aLen bLen))) h
               = count_list (map (addHunk SideA) m1 @ map (addHunk SideB) m2) h)
       \<and> chained 0 oLen (map stepSpan (mergeSteps m1 m2 oLen aLen bLen))
       \<and> list_all stepAccounts (mergeSteps m1 m2 oLen aLen bLen)
       \<and> (accountsFrom oLen 0 (mergeHunks m1 m2 oLen aLen bLen)
            \<longleftrightarrow> \<not> list_ex loneDeletion (mergeSteps m1 m2 oLen aLen bLen))"
proof -
  define hs where "hs = sortedHunks m1 m2"
  define st where "st = runRegions oLen aLen bLen (regionsOf hs) initialState"
  define steps where "steps = mergeSteps m1 m2 oLen aLen bLen"
  have steps: "steps = regionSteps oLen aLen bLen (regionsOf hs) initialState
      @ [(CommonStep, stepBetween st (copyCommon oLen st))]"
    by (simp add: steps_def mergeSteps_def Let_def hs_def st_def)
  have srt: "sorted (map (\<lambda>h. location (oRange h)) hs)"
    unfolding hs_def by (rule sortedHunks_sorted)
  have pre: "\<forall>h\<in>set hs. oOffset initialState \<le> location (oRange h) \<and> 0 \<le> lengthR (oRange h)
           \<and> upperBound (oRange h) \<le> oLen"
    using assms(2) unfolding hs_def set_sortedHunks
    by (auto simp: baseWithin_def oRange_addHunk initialState_def)
  have o0: "oOffset initialState \<le> oLen" using assms(1) by (simp add: initialState_def)
  note inv = regionSteps_invariant [OF srt pre o0, of oLen aLen bLen, folded st_def]
  have le: "oOffset st \<le> oLen" using inv by simp
  have last_span: "chained (oOffset st) oLen [fst (stepBetween st (copyCommon oLen st))]"
    using le by (simp add: stepBetween_def copyCommon_oOffset makeRange_def upperBound_def)
  obtain sp rs where sb: "stepBetween st (copyCommon oLen st) = (sp, rs)"
    by (cases "stepBetween st (copyCommon oLen st)")
  have ch: "chained 0 oLen (map stepSpan steps)"
    unfolding steps map_append
    using inv last_span
    by (intro chained_append [where q = "oOffset st"]) (simp_all add: initialState_def sb)
  have ag: "list_all stepAccounts steps"
    unfolding steps using inv stepAccounts_copyCommon [OF le] by simp
  have r0: "result st =
      concat (map stepRecords (regionSteps oLen aLen bLen (regionsOf hs) initialState))"
    using inv by (simp add: initialState_def)
  have r1: "result (copyCommon oLen st) = result st @ rs"
    using sb by (auto simp: stepBetween_def copyCommon_result)
  have mh: "mergeHunks m1 m2 oLen aLen bLen = result (copyCommon oLen st)"
    by (simp add: mergeHunks_runRegions st_def hs_def)
  have res: "concat (map stepRecords steps) = mergeHunks m1 m2 oLen aLen bLen"
    unfolding steps mh r1 r0 by (simp add: sb)
  have hk: "concat (map stepHunks steps) = hs"
    unfolding steps using inv by (simp add: sb)
  have cnt: "count_list (concat (map stepHunks steps)) h
      = count_list (map (addHunk SideA) m1 @ map (addHunk SideB) m2) h" for h
    unfolding hk hs_def by (rule count_list_sortedHunks)
  have acc: "accountsFrom oLen 0 (mergeHunks m1 m2 oLen aLen bLen)"
    if "\<not> list_ex loneDeletion steps"
    using steps_accountsFrom [OF ch ag that] unfolding res .
  have lone: "\<not> list_ex loneDeletion steps"
    if w: "accountsFrom oLen 0 (mergeHunks m1 m2 oLen aLen bLen)"
  proof -
    have "accountsFrom oLen 0
        (concat (map stepRecords (regionSteps oLen aLen bLen (regionsOf hs) initialState))
         @ snd (stepBetween st (copyCommon oLen st)))"
      using w unfolding mh r1 r0 by (simp add: sb)
    from records_pin_position [OF srt pre o0 this [unfolded st_def]]
    have "\<not> list_ex loneDeletion (regionSteps oLen aLen bLen (regionsOf hs) initialState)"
      by (simp add: initialState_def)
    then show ?thesis unfolding steps by (simp add: sb)
  qed
  from acc lone have iff: "accountsFrom oLen 0 (mergeHunks m1 m2 oLen aLen bLen)
      \<longleftrightarrow> \<not> list_ex loneDeletion steps"
    by blast
  from res hk cnt ch ag iff show ?thesis
    unfolding steps_def hs_def by blast
qed

text \<open>
  Witness for C1. First, base \<open>[1, 2, 3]\<close>, side a \<open>[1, 3]\<close> (the element 2 deleted),
  side b unchanged: the diff of the base against a is the one hunk that replaces base
  range \<open>[1, 2)\<close> by the empty range at 1, its step pushes no record, and the records do
  not account for the base. Second, base
  \<open>[x, y, z]\<close>, side a \<open>[y, z]\<close>, side b \<open>[x, p, y, z, q]\<close>: no region is a single pure
  deletion, and the records account for the base.
\<close>

theorem mergeSteps_cover_base_witness:
  "mergeSteps [\<lparr>res_a = makeRange 1 1, res_b = makeRange 1 0\<rparr>] [] 3 2 3 =
     [(CommonStep, makeRange 0 1, [OkA 1 0 (Some 0) (Some 0)]),
      (RegionStep \<lparr>side = SideA, oRange = makeRange 1 1, sideRange = makeRange 1 0\<rparr> [],
         makeRange 1 1, []),
      (CommonStep, makeRange 2 1, [OkA 1 1 (Some 2) (Some 2)])]
   \<and> concat (map stepRecords
        (mergeSteps [\<lparr>res_a = makeRange 1 1, res_b = makeRange 1 0\<rparr>] [] 3 2 3))
       = mergeHunks [\<lparr>res_a = makeRange 1 1, res_b = makeRange 1 0\<rparr>] [] 3 2 3
   \<and> chained 0 3 (map stepSpan
        (mergeSteps [\<lparr>res_a = makeRange 1 1, res_b = makeRange 1 0\<rparr>] [] 3 2 3))
   \<and> list_all stepAccounts
        (mergeSteps [\<lparr>res_a = makeRange 1 1, res_b = makeRange 1 0\<rparr>] [] 3 2 3)
   \<and> list_ex loneDeletion
        (mergeSteps [\<lparr>res_a = makeRange 1 1, res_b = makeRange 1 0\<rparr>] [] 3 2 3)
   \<and> \<not> accountsFrom 3 0
        (mergeHunks [\<lparr>res_a = makeRange 1 1, res_b = makeRange 1 0\<rparr>] [] 3 2 3)
   \<and> mergeSteps [\<lparr>res_a = makeRange 0 1, res_b = makeRange 0 0\<rparr>]
        [\<lparr>res_a = makeRange 1 0, res_b = makeRange 1 1\<rparr>,
         \<lparr>res_a = makeRange 3 0, res_b = makeRange 4 1\<rparr>] 3 2 5 =
     [(CommonStep, makeRange 0 0, []),
      (RegionStep \<lparr>side = SideA, oRange = makeRange 0 1, sideRange = makeRange 0 0\<rparr>
         [\<lparr>side = SideB, oRange = makeRange 1 0, sideRange = makeRange 1 1\<rparr>],
         makeRange 0 1, [Conflict (makeRange 0 0) (makeRange 0 1) (makeRange 0 2)]),
      (CommonStep, makeRange 1 2, [OkA 2 0 (Some 1) (Some 2)]),
      (RegionStep \<lparr>side = SideB, oRange = makeRange 3 0, sideRange = makeRange 4 1\<rparr> [],
         makeRange 3 0, [OkB 1 None None 4]),
      (CommonStep, makeRange 3 0, [])]
   \<and> accountsFrom 3 0 (mergeHunks [\<lparr>res_a = makeRange 0 1, res_b = makeRange 0 0\<rparr>]
        [\<lparr>res_a = makeRange 1 0, res_b = makeRange 1 1\<rparr>,
         \<lparr>res_a = makeRange 3 0, res_b = makeRange 4 1\<rparr>] 3 2 5)"
proof -
  have h: "\<forall>h\<in>set [\<lparr>res_a = makeRange 1 1, res_b = makeRange 1 0\<rparr>] \<union> set []. baseWithin 3 h"
    by (simp add: baseWithin_def makeRange_def upperBound_def)
  have v: "mergeSteps [\<lparr>res_a = makeRange 1 1, res_b = makeRange 1 0\<rparr>] [] 3 2 3 =
     [(CommonStep, makeRange 0 1, [OkA 1 0 (Some 0) (Some 0)]),
      (RegionStep \<lparr>side = SideA, oRange = makeRange 1 1, sideRange = makeRange 1 0\<rparr> [],
         makeRange 1 1, []),
      (CommonStep, makeRange 2 1, [OkA 1 1 (Some 2) (Some 2)])]"
    by (simp add: mergeSteps_def sortedHunks_def addHunk_def initialState_def
        processRegion_def copyCommon_def emitSingle_def stepBetween_def makeRange_def
        upperBound_def Let_def)
  have d: "list_ex loneDeletion
        (mergeSteps [\<lparr>res_a = makeRange 1 1, res_b = makeRange 1 0\<rparr>] [] 3 2 3)"
    unfolding v by (simp add: makeRange_def)
  have h': "\<forall>h\<in>set [\<lparr>res_a = makeRange 0 1, res_b = makeRange 0 0\<rparr>]
        \<union> set [\<lparr>res_a = makeRange 1 0, res_b = makeRange 1 1\<rparr>,
               \<lparr>res_a = makeRange 3 0, res_b = makeRange 4 1\<rparr>]. baseWithin 3 h"
    by (simp add: baseWithin_def makeRange_def upperBound_def)
  have v': "mergeSteps [\<lparr>res_a = makeRange 0 1, res_b = makeRange 0 0\<rparr>]
        [\<lparr>res_a = makeRange 1 0, res_b = makeRange 1 1\<rparr>,
         \<lparr>res_a = makeRange 3 0, res_b = makeRange 4 1\<rparr>] 3 2 5 =
     [(CommonStep, makeRange 0 0, []),
      (RegionStep \<lparr>side = SideA, oRange = makeRange 0 1, sideRange = makeRange 0 0\<rparr>
         [\<lparr>side = SideB, oRange = makeRange 1 0, sideRange = makeRange 1 1\<rparr>],
         makeRange 0 1, [Conflict (makeRange 0 0) (makeRange 0 1) (makeRange 0 2)]),
      (CommonStep, makeRange 1 2, [OkA 2 0 (Some 1) (Some 2)]),
      (RegionStep \<lparr>side = SideB, oRange = makeRange 3 0, sideRange = makeRange 4 1\<rparr> [],
         makeRange 3 0, [OkB 1 None None 4]),
      (CommonStep, makeRange 3 0, [])]"
    by (simp add: mergeSteps_def sortedHunks_def addHunk_def initialState_def
        processRegion_def copyCommon_def emitSingle_def emitConflict_def updateBounds_def
        stepBetween_def makeRange_def upperBound_def Let_def)
  have n: "\<not> list_ex loneDeletion (mergeSteps [\<lparr>res_a = makeRange 0 1, res_b = makeRange 0 0\<rparr>]
        [\<lparr>res_a = makeRange 1 0, res_b = makeRange 1 1\<rparr>,
         \<lparr>res_a = makeRange 3 0, res_b = makeRange 4 1\<rparr>] 3 2 5)"
    unfolding v' by (simp add: makeRange_def)
  from mergeSteps_cover_base [OF _ h, of 2 3] d
  have 0: "\<not> accountsFrom 3 0
        (mergeHunks [\<lparr>res_a = makeRange 1 1, res_b = makeRange 1 0\<rparr>] [] 3 2 3)"
    by simp
  from mergeSteps_cover_base [OF _ h, of 2 3]
  have 1: "concat (map stepRecords
        (mergeSteps [\<lparr>res_a = makeRange 1 1, res_b = makeRange 1 0\<rparr>] [] 3 2 3))
       = mergeHunks [\<lparr>res_a = makeRange 1 1, res_b = makeRange 1 0\<rparr>] [] 3 2 3
     \<and> chained 0 3 (map stepSpan
        (mergeSteps [\<lparr>res_a = makeRange 1 1, res_b = makeRange 1 0\<rparr>] [] 3 2 3))
     \<and> list_all stepAccounts
        (mergeSteps [\<lparr>res_a = makeRange 1 1, res_b = makeRange 1 0\<rparr>] [] 3 2 3)"
    by simp
  from mergeSteps_cover_base [OF _ h', of 2 5] n
  have 2: "accountsFrom 3 0 (mergeHunks [\<lparr>res_a = makeRange 0 1, res_b = makeRange 0 0\<rparr>]
        [\<lparr>res_a = makeRange 1 0, res_b = makeRange 1 1\<rparr>,
         \<lparr>res_a = makeRange 3 0, res_b = makeRange 4 1\<rparr>] 3 2 5)"
    by simp
  from v d 0 v' 1 2 show ?thesis by blast
qed

text \<open>
  Counterexample for C1 as stated: base \<open>[1, 2, 3]\<close>, side a \<open>[1, 3]\<close>, side b a copy
  of the base. The returned records are the two common regions \<open>[0, 1)\<close> and \<open>[2, 3)\<close>
  of the base. Nothing in the list stands for base position 1, so walking the records
  leaves a gap.
\<close>

theorem records_alone_leave_gap:
  "diffIndices (\<lambda>s t. []) wholeWindowCore (JSArray 0 [1, 2, 3 :: int]) (JSArray 1 [1, 3]) =
     [\<lparr>res_a = makeRange 1 1, res_b = makeRange 1 0\<rparr>]
   \<and> diffIndices (\<lambda>s t. []) wholeWindowCore (JSArray 0 [1, 2, 3 :: int]) (JSArray 2 [1, 2, 3]) = []
   \<and> diff3MergeIndices (\<lambda>s t. []) wholeWindowCore
        (JSArray 0 [1, 2, 3 :: int]) (JSArray 1 [1, 3]) (JSArray 2 [1, 2, 3]) =
     [OkA 1 0 (Some 0) (Some 0), OkA 1 1 (Some 2) (Some 2)]
   \<and> \<not> accountsFrom 3 0 (diff3MergeIndices (\<lambda>s t. []) wholeWindowCore
        (JSArray 0 [1, 2, 3 :: int]) (JSArray 1 [1, 3]) (JSArray 2 [1, 2, 3]))"
proof -
  have d1: "diffIndices (\<lambda>s t. []) wholeWindowCore (JSArray 0 [1, 2, 3 :: int])
      (JSArray 1 [1, 3]) = [\<lparr>res_a = makeRange 1 1, res_b = makeRange 1 0\<rparr>]"
    by (simp add: diffIndices_def diffIndicesArray_def eliminatePrefix.simps
        eliminateSuffix.simps wholeWindowCore_def coreResult_def at_def seqLength_def
        areReferenceEqual_def Let_def)
  have d2: "diffIndices (\<lambda>s t. []) wholeWindowCore (JSArray 0 [1, 2, 3 :: int])
      (JSArray 2 [1, 2, 3]) = []"
    by (simp add: diffIndices_def diffIndicesArray_def eliminatePrefix.simps
        at_def seqLength_def areReferenceEqual_def Let_def)
  have m: "mergeHunks [\<lparr>res_a = makeRange 1 1, res_b = makeRange 1 0\<rparr>] [] 3 2 3 =
      [OkA 1 0 (Some 0) (Some 0), OkA 1 1 (Some 2) (Some 2)]"
    by (simp add: mergeHunks_def sortedHunks_def addHunk_def initialState_def
        processRegion_def copyCommon_def emitSingle_def makeRange_def upperBound_def Let_def)
  have r: "diff3MergeIndices (\<lambda>s t. []) wholeWindowCore
        (JSArray 0 [1, 2, 3 :: int]) (JSArray 1 [1, 3]) (JSArray 2 [1, 2, 3]) =
     [OkA 1 0 (Some 0) (Some 0), OkA 1 1 (Some 2) (Some 2)]"
    unfolding diff3MergeIndices_def Let_def d1 d2 by (simp add: m seqLength_def)
  show ?thesis unfolding r d1 d2 by simp
qed

subsection \<open>C2: regions are maximal runs of touching hunks\<close>

text \<open>
  C2. The hunks of both diffs are sorted by the start of their base range: the sorted
  list is in order, it holds each hunk of the two diffs as often as the diffs do, and
  hunks with the same start keep the order in which they were pushed, those of a before
  those of b. The sorted list is cut, from left to right, into regions. Within a region
  every further hunk starts at or before the base end reached so far (touching counts,
  so a hunk with an empty base range that is adjacent to the region joins it), and
  \<open>regionRhs\<close> is the largest upper bound; the next region starts strictly after
  \<open>regionRhs\<close>, so regions are maximal. The loop body pushes a conflict record for a
  region exactly when the region holds hunks of both sides. The hypothesis is the
  differ's contract that two hunks of one diff never touch in the base.
\<close>

theorem regions_are_maximal_touching_runs:
  assumes "separated m1" and "separated m2"
  shows "sorted (map (\<lambda>h. location (oRange h)) (sortedHunks m1 m2))
       \<and> (\<forall>h. count_list (sortedHunks m1 m2) h
               = count_list (map (addHunk SideA) m1 @ map (addHunk SideB) m2) h)
       \<and> (\<forall>k. filter (\<lambda>h. location (oRange h) = k) (sortedHunks m1 m2)
               = filter (\<lambda>h. location (oRange h) = k)
                   (map (addHunk SideA) m1 @ map (addHunk SideB) m2))
       \<and> concat (map regionHunks (regionsOf (sortedHunks m1 m2))) = sortedHunks m1 m2
       \<and> (\<forall>(hunk, taken, regionRhs) \<in> set (regionsOf (sortedHunks m1 m2)).
            touchingFrom (upperBound (oRange hunk)) taken
            \<and> regionRhs = baseEnd (upperBound (oRange hunk)) taken
            \<and> (\<forall>st. list_ex isConflict (drop (length (result st))
                        (result (processRegion oLen aLen bLen hunk taken regionRhs st)))
                     \<longleftrightarrow> hasSide SideA (hunk # taken) \<and> hasSide SideB (hunk # taken)))
       \<and> regionsApart (regionsOf (sortedHunks m1 m2))
       \<and> mergeHunks m1 m2 oLen aLen bLen =
           result (copyCommon oLen
             (runRegions oLen aLen bLen (regionsOf (sortedHunks m1 m2)) initialState))"
proof -
  have apart: "sidesApart (sortedHunks m1 m2)"
    using assms by (rule sidesApart_sortedHunks)
  have region: "touchingFrom (upperBound (oRange hunk)) taken
            \<and> regionRhs = baseEnd (upperBound (oRange hunk)) taken
            \<and> (\<forall>st. list_ex isConflict (drop (length (result st))
                        (result (processRegion oLen aLen bLen hunk taken regionRhs st)))
                     \<longleftrightarrow> hasSide SideA (hunk # taken) \<and> hasSide SideB (hunk # taken))"
    if r: "(hunk, taken, regionRhs) \<in> set (regionsOf (sortedHunks m1 m2))"
    for hunk taken regionRhs
  proof -
    from regionsOf_member [OF r] obtain pre post where
      e: "extendRegion (upperBound (oRange hunk)) (taken @ post) = (taken, post, regionRhs)"
      by blast
    show ?thesis
      using extendRegion_touching [OF e] region_both_sides [OF apart r]
      by (simp add: list_ex_isConflict_processRegion)
  qed
  have regions: "\<forall>(hunk, taken, regionRhs) \<in> set (regionsOf (sortedHunks m1 m2)).
            touchingFrom (upperBound (oRange hunk)) taken
            \<and> regionRhs = baseEnd (upperBound (oRange hunk)) taken
            \<and> (\<forall>st. list_ex isConflict (drop (length (result st))
                        (result (processRegion oLen aLen bLen hunk taken regionRhs st)))
                     \<longleftrightarrow> hasSide SideA (hunk # taken) \<and> hasSide SideB (hunk # taken))"
    using region by blast
  have srt: "sorted (map (\<lambda>h. location (oRange h)) (sortedHunks m1 m2))"
    by (rule sortedHunks_sorted)
  have cnt: "\<forall>h. count_list (sortedHunks m1 m2) h
               = count_list (map (addHunk SideA) m1 @ map (addHunk SideB) m2) h"
    by (intro allI count_list_sortedHunks)
  have stable: "\<forall>k. filter (\<lambda>h. location (oRange h) = k) (sortedHunks m1 m2)
               = filter (\<lambda>h. location (oRange h) = k)
                   (map (addHunk SideA) m1 @ map (addHunk SideB) m2)"
    by (intro allI sortedHunks_stable)
  have cat: "concat (map regionHunks (regionsOf (sortedHunks m1 m2))) = sortedHunks m1 m2"
    by (rule concat_regionsOf)
  have ap: "regionsApart (regionsOf (sortedHunks m1 m2))"
    using srt by (rule regionsApart_regionsOf)
  have mh: "mergeHunks m1 m2 oLen aLen bLen =
           result (copyCommon oLen
             (runRegions oLen aLen bLen (regionsOf (sortedHunks m1 m2)) initialState))"
    by (rule mergeHunks_runRegions)
  from srt cnt stable cat regions ap mh show ?thesis by blast
qed

text \<open>
  Witness for C2: base \<open>[x, y, z]\<close>, side a \<open>[y, z]\<close>, side b \<open>[x, p, y, z, q]\<close>. The
  deletion of \<open>x\<close> by a and the insertion of \<open>p\<close> by b touch at base position 1 and form
  one region, a conflict; the insertion of \<open>q\<close> at the end is a region of its own.
\<close>

theorem regions_are_maximal_touching_runs_witness:
  "separated [\<lparr>res_a = makeRange 0 1, res_b = makeRange 0 0\<rparr>]
   \<and> separated [\<lparr>res_a = makeRange 1 0, res_b = makeRange 1 1\<rparr>,
                  \<lparr>res_a = makeRange 3 0, res_b = makeRange 4 1\<rparr>]
   \<and> sortedHunks [\<lparr>res_a = makeRange 0 1, res_b = makeRange 0 0\<rparr>]
         [\<lparr>res_a = makeRange 1 0, res_b = makeRange 1 1\<rparr>,
          \<lparr>res_a = makeRange 3 0, res_b = makeRange 4 1\<rparr>] =
       [\<lparr>side = SideA, oRange = makeRange 0 1, sideRange = makeRange 0 0\<rparr>,
        \<lparr>side = SideB, oRange = makeRange 1 0, sideRange = makeRange 1 1\<rparr>,
        \<lparr>side = SideB, oRange = makeRange 3 0, sideRange = makeRange 4 1\<rparr>]
   \<and> regionsOf (sortedHunks [\<lparr>res_a = makeRange 0 1, res_b = makeRange 0 0\<rparr>]
         [\<lparr>res_a = makeRange 1 0, res_b = makeRange 1 1\<rparr>,
          \<lparr>res_a = makeRange 3 0, res_b = makeRange 4 1\<rparr>]) =
       [(\<lparr>side = SideA, oRange = makeRange 0 1, sideRange = makeRange 0 0\<rparr>,
         [\<lparr>side = SideB, oRange = makeRange 1 0, sideRange = makeRange 1 1\<rparr>], 1),
        (\<lparr>side = SideB, oRange = makeRange 3 0, sideRange = makeRange 4 1\<rparr>, [], 3)]
   \<and> regionsApart (regionsOf (sortedHunks [\<lparr>res_a = makeRange 0 1, res_b = makeRange 0 0\<rparr>]
         [\<lparr>res_a = makeRange 1 0, res_b = makeRange 1 1\<rparr>,
          \<lparr>res_a = makeRange 3 0, res_b = makeRange 4 1\<rparr>]))
   \<and> mergeHunks [\<lparr>res_a = makeRange 0 1, res_b = makeRange 0 0\<rparr>]
         [\<lparr>res_a = makeRange 1 0, res_b = makeRange 1 1\<rparr>,
          \<lparr>res_a = makeRange 3 0, res_b = makeRange 4 1\<rparr>] 3 2 5 =
       [Conflict (makeRange 0 0) (makeRange 0 1) (makeRange 0 2),
        OkA 2 0 (Some 1) (Some 2),
        OkB 1 None None 4]"
proof -
  have s1: "separated [\<lparr>res_a = makeRange 0 1, res_b = makeRange 0 0\<rparr>]"
    by (simp add: separated_def makeRange_def)
  have s2: "separated [\<lparr>res_a = makeRange 1 0, res_b = makeRange 1 1\<rparr>,
                  \<lparr>res_a = makeRange 3 0, res_b = makeRange 4 1\<rparr>]"
    by (simp add: separated_def makeRange_def upperBound_def)
  have sh: "sortedHunks [\<lparr>res_a = makeRange 0 1, res_b = makeRange 0 0\<rparr>]
         [\<lparr>res_a = makeRange 1 0, res_b = makeRange 1 1\<rparr>,
          \<lparr>res_a = makeRange 3 0, res_b = makeRange 4 1\<rparr>] =
       [\<lparr>side = SideA, oRange = makeRange 0 1, sideRange = makeRange 0 0\<rparr>,
        \<lparr>side = SideB, oRange = makeRange 1 0, sideRange = makeRange 1 1\<rparr>,
        \<lparr>side = SideB, oRange = makeRange 3 0, sideRange = makeRange 4 1\<rparr>]"
    by (simp add: sortedHunks_def addHunk_def makeRange_def)
  have v: "regionsOf (sortedHunks [\<lparr>res_a = makeRange 0 1, res_b = makeRange 0 0\<rparr>]
         [\<lparr>res_a = makeRange 1 0, res_b = makeRange 1 1\<rparr>,
          \<lparr>res_a = makeRange 3 0, res_b = makeRange 4 1\<rparr>]) =
       [(\<lparr>side = SideA, oRange = makeRange 0 1, sideRange = makeRange 0 0\<rparr>,
         [\<lparr>side = SideB, oRange = makeRange 1 0, sideRange = makeRange 1 1\<rparr>], 1),
        (\<lparr>side = SideB, oRange = makeRange 3 0, sideRange = makeRange 4 1\<rparr>, [], 3)]"
    by (simp add: sortedHunks_def addHunk_def makeRange_def upperBound_def)
  have m: "result (copyCommon 3 (runRegions 3 2 5
       [(\<lparr>side = SideA, oRange = makeRange 0 1, sideRange = makeRange 0 0\<rparr>,
         [\<lparr>side = SideB, oRange = makeRange 1 0, sideRange = makeRange 1 1\<rparr>], 1),
        (\<lparr>side = SideB, oRange = makeRange 3 0, sideRange = makeRange 4 1\<rparr>, [], 3)]
       initialState)) =
       [Conflict (makeRange 0 0) (makeRange 0 1) (makeRange 0 2),
        OkA 2 0 (Some 1) (Some 2),
        OkB 1 None None 4]"
    by (simp add: initialState_def processRegion_def copyCommon_def emitSingle_def
        emitConflict_def updateBounds_def makeRange_def upperBound_def Let_def)
  from regions_are_maximal_touching_runs [OF s1 s2, of 3 2 5]
  have r: "regionsApart (regionsOf (sortedHunks [\<lparr>res_a = makeRange 0 1, res_b = makeRange 0 0\<rparr>]
         [\<lparr>res_a = makeRange 1 0, res_b = makeRange 1 1\<rparr>,
          \<lparr>res_a = makeRange 3 0, res_b = makeRange 4 1\<rparr>]))
     \<and> mergeHunks [\<lparr>res_a = makeRange 0 1, res_b = makeRange 0 0\<rparr>]
         [\<lparr>res_a = makeRange 1 0, res_b = makeRange 1 1\<rparr>,
          \<lparr>res_a = makeRange 3 0, res_b = makeRange 4 1\<rparr>] 3 2 5 =
        result (copyCommon 3 (runRegions 3 2 5
          (regionsOf (sortedHunks [\<lparr>res_a = makeRange 0 1, res_b = makeRange 0 0\<rparr>]
             [\<lparr>res_a = makeRange 1 0, res_b = makeRange 1 1\<rparr>,
              \<lparr>res_a = makeRange 3 0, res_b = makeRange 4 1\<rparr>]))
          initialState))"
    by blast
  from r s1 s2 sh v m show ?thesis by simp
qed

subsection \<open>C3: a region with hunks of one side\<close>



subsection \<open>C10: the indices a record defines\<close>








subsection \<open>C4: the ranges of a conflict record\<close>

lemma regionBounds_sides:
  "regionBounds hs (ra, rb) =
     (foldl (\<lambda>r h. updateBounds h r) ra (sideHunks SideA hs),
      foldl (\<lambda>r h. updateBounds h r) rb (sideHunks SideB hs))"
proof (induction hs arbitrary: ra rb)
  case Nil
  then show ?case by (simp add: sideHunks_def)
next
  case (Cons h hs)
  then show ?case by (cases "side h") (simp_all add: sideHunks_def)
qed

lemma foldl_updateBounds:
  "foldl (\<lambda>r h. updateBounds h r) (r0, r1, r2, r3) hs =
     (fold min (map (\<lambda>h. location (sideRange h)) hs) r0,
      fold max (map (\<lambda>h. upperBound (sideRange h)) hs) r1,
      fold min (map (\<lambda>h. location (oRange h)) hs) r2,
      fold max (map (\<lambda>h. upperBound (oRange h)) hs) r3)"
proof (induction hs arbitrary: r0 r1 r2 r3)
  case Nil
  then show ?case by simp
next
  case (Cons h hs)
  have u: "updateBounds h (r0, r1, r2, r3) =
      (min (location (sideRange h)) r0, max (upperBound (sideRange h)) r1,
       min (location (oRange h)) r2, max (upperBound (oRange h)) r3)"
    by (simp add: updateBounds_def)
  show ?case
    by (simp add: u Cons.IH)
qed

lemma fold_min_above:
  fixes xs :: "int list"
  assumes "xs \<noteq> []" and "\<forall>x\<in>set xs. x \<le> a"
  shows "fold min xs a = Min (set xs)"
proof -
  have "fold min xs a = Min (set (a # xs))" by (rule Min.set_eq_fold [symmetric])
  also have "\<dots> = min a (Min (set xs))" using assms(1) by simp
  also have "\<dots> = Min (set xs)"
  proof -
    have "Min (set xs) \<in> set xs" using assms(1) by (intro Min_in) auto
    with assms(2) have "Min (set xs) \<le> a" by blast
    then show ?thesis by (rule min_absorb2)
  qed
  finally show ?thesis .
qed

lemma fold_max_below:
  fixes xs :: "int list"
  assumes "xs \<noteq> []" and "\<forall>x\<in>set xs. a \<le> x"
  shows "fold max xs a = Max (set xs)"
proof -
  have "fold max xs a = Max (set (a # xs))" by (rule Max.set_eq_fold [symmetric])
  also have "\<dots> = max a (Max (set xs))" using assms(1) by simp
  also have "\<dots> = Max (set xs)"
  proof -
    have "Max (set xs) \<in> set xs" using assms(1) by (intro Max_in) auto
    with assms(2) have "a \<le> Max (set xs)" by blast
    then show ?thesis by (rule max_absorb2)
  qed
  finally show ?thesis .
qed

lemma side_bounds:
  assumes ne: "sideHunks s g \<noteq> []"
    and b0: "\<forall>h\<in>set (sideHunks s g). location (sideRange h) \<le> r0"
    and b1: "\<forall>h\<in>set (sideHunks s g). r1 \<le> upperBound (sideRange h)"
    and b2: "\<forall>h\<in>set (sideHunks s g). location (oRange h) \<le> r2"
    and b3: "\<forall>h\<in>set (sideHunks s g). r3 \<le> upperBound (oRange h)"
  shows "foldl (\<lambda>r h. updateBounds h r) (r0, r1, r2, r3) (sideHunks s g) =
     (coverLo (map sideRange (sideHunks s g)),
      coverHi (map sideRange (sideHunks s g)),
      coverLo (map oRange (sideHunks s g)),
      coverHi (map oRange (sideHunks s g)))"
proof -
  have m0: "fold min (map (\<lambda>h. location (sideRange h)) (sideHunks s g)) r0 =
      Min (set (map (\<lambda>h. location (sideRange h)) (sideHunks s g)))"
    using ne b0 by (intro fold_min_above) auto
  have m1: "fold max (map (\<lambda>h. upperBound (sideRange h)) (sideHunks s g)) r1 =
      Max (set (map (\<lambda>h. upperBound (sideRange h)) (sideHunks s g)))"
    using ne b1 by (intro fold_max_below) auto
  have m2: "fold min (map (\<lambda>h. location (oRange h)) (sideHunks s g)) r2 =
      Min (set (map (\<lambda>h. location (oRange h)) (sideHunks s g)))"
    using ne b2 by (intro fold_min_above) auto
  have m3: "fold max (map (\<lambda>h. upperBound (oRange h)) (sideHunks s g)) r3 =
      Max (set (map (\<lambda>h. upperBound (oRange h)) (sideHunks s g)))"
    using ne b3 by (intro fold_max_below) auto
  show ?thesis
    unfolding foldl_updateBounds m0 m1 m2 m3
    by (simp add: coverLo_def coverHi_def comp_def)
qed



lemma emitConflict_covering:
  assumes na: "sideHunks SideA g \<noteq> []" and nb: "sideHunks SideB g \<noteq> []"
    and bnd: "\<forall>h\<in>set g. withinBounds oLen (if side h = SideA then aLen else bLen)
           \<lparr>res_a = oRange h, res_b = sideRange h\<rparr>"
  shows "emitConflict g regionLhs regionRhs oLen aLen bLen st =
     \<lparr>result = result st @
        [Conflict
          (extendOutward (covering (map sideRange (sideHunks SideA g)))
            (coverLo (map oRange (sideHunks SideA g)) - regionLhs)
            (regionRhs - coverHi (map oRange (sideHunks SideA g))))
          (makeRange regionLhs (regionRhs - regionLhs))
          (extendOutward (covering (map sideRange (sideHunks SideB g)))
            (coverLo (map oRange (sideHunks SideB g)) - regionLhs)
            (regionRhs - coverHi (map oRange (sideHunks SideB g))))],
      oOffset = regionRhs,
      aOffset = coverHi (map sideRange (sideHunks SideA g))
                 + (regionRhs - coverHi (map oRange (sideHunks SideA g))),
      bOffset = coverHi (map sideRange (sideHunks SideB g))
                 + (regionRhs - coverHi (map oRange (sideHunks SideB g)))\<rparr>"
proof -
  have a: "foldl (\<lambda>r h. updateBounds h r) (aLen, -1, oLen, -1) (sideHunks SideA g) =
     (coverLo (map sideRange (sideHunks SideA g)),
      coverHi (map sideRange (sideHunks SideA g)),
      coverLo (map oRange (sideHunks SideA g)),
      coverHi (map oRange (sideHunks SideA g)))"
    using na bnd
    by (intro side_bounds) (auto simp: sideHunks_def withinBounds_def upperBound_def)
  have b: "foldl (\<lambda>r h. updateBounds h r) (bLen, -1, oLen, -1) (sideHunks SideB g) =
     (coverLo (map sideRange (sideHunks SideB g)),
      coverHi (map sideRange (sideHunks SideB g)),
      coverLo (map oRange (sideHunks SideB g)),
      coverHi (map oRange (sideHunks SideB g)))"
    using nb bnd
    by (intro side_bounds) (auto simp: sideHunks_def withinBounds_def upperBound_def)
  show ?thesis
    by (simp add: emitConflict_def regionBounds_sides a b Let_def extendOutward_def
        covering_def makeRange_def)
qed

lemma hasSide_sideHunks: "hasSide s g \<longleftrightarrow> sideHunks s g \<noteq> []"
  by (auto simp: hasSide_def sideHunks_def list_ex_iff filter_empty_conv)




subsection \<open>C7: no negative location or length\<close>

lemma coverLo_single: "coverLo [r] = location r"
  by (simp add: coverLo_def)

lemma coverHi_single: "coverHi [r] = upperBound r"
  by (simp add: coverHi_def)

lemma coverLo_Cons: "rs \<noteq> [] \<Longrightarrow> coverLo (r # rs) = min (location r) (coverLo rs)"
  by (simp add: coverLo_def)

lemma coverHi_Cons: "rs \<noteq> [] \<Longrightarrow> coverHi (r # rs) = max (upperBound r) (coverHi rs)"
  by (simp add: coverHi_def)

lemma coverHi_le:
  assumes "rs \<noteq> []" and "\<forall>r\<in>set rs. upperBound r \<le> b"
  shows "coverHi rs \<le> b"
  using assms by (simp add: coverHi_def)

lemma alignedFrom_le:
  "alignedFrom n m po ps xs \<Longrightarrow> po \<le> n \<and> ps \<le> m"
proof (induction xs arbitrary: po ps)
  case Nil
  then show ?case by simp
next
  case (Cons h xs)
  from Cons.prems have t: "alignedFrom n m (upperBound (res_a h)) (upperBound (res_b h)) xs"
    by simp
  from Cons.IH [OF t] Cons.prems show ?case by (simp add: upperBound_def)
qed

lemma alignedFrom_within:
  "alignedFrom n m po ps xs \<Longrightarrow> 0 \<le> po \<Longrightarrow> 0 \<le> ps \<Longrightarrow> \<forall>x\<in>set xs. withinBounds n m x"
proof (induction xs arbitrary: po ps)
  case Nil
  then show ?case by simp
next
  case (Cons h xs)
  from Cons.prems have t: "alignedFrom n m (upperBound (res_a h)) (upperBound (res_b h)) xs"
    by simp
  have h: "withinBounds n m h"
    using alignedFrom_le [OF t] Cons.prems by (simp add: withinBounds_def upperBound_def)
  have "\<forall>x\<in>set xs. withinBounds n m x"
    using h Cons.prems by (intro Cons.IH [OF t]) (simp_all add: withinBounds_def upperBound_def)
  with h show ?case by simp
qed

lemma alignedFrom_shift:
  assumes "alignedFrom n m po ps xs" and "0 \<le> d"
    and "\<forall>x\<in>set xs. po + d \<le> location (res_a x)" and "po + d \<le> n"
  shows "alignedFrom n m (po + d) (ps + d) xs"
  using assms by (cases xs) auto

lemma alignedFrom_prefix:
  assumes "alignedFrom n m po ps (xs @ ys)" and "xs \<noteq> []"
  shows "coverLo (map res_a xs) - po = coverLo (map res_b xs) - ps
       \<and> po \<le> coverLo (map res_a xs)
       \<and> coverLo (map res_a xs) \<le> coverHi (map res_a xs)
       \<and> coverLo (map res_b xs) \<le> coverHi (map res_b xs)
       \<and> alignedFrom n m (coverHi (map res_a xs)) (coverHi (map res_b xs)) ys"
  using assms
proof (induction xs arbitrary: po ps)
  case Nil
  then show ?case by simp
next
  case (Cons h xs)
  show ?case
  proof (cases "xs = []")
    case True
    with Cons.prems show ?thesis
      by (simp add: coverLo_single coverHi_single upperBound_def)
  next
    case False
    from Cons.prems have t:
      "alignedFrom n m (upperBound (res_a h)) (upperBound (res_b h)) (xs @ ys)" by simp
    note IH = Cons.IH [OF t False]
    have ne: "map res_a xs \<noteq> []" "map res_b xs \<noteq> []" using False by simp_all
    from Cons.prems have hd: "po \<le> location (res_a h)"
      "location (res_a h) - po = location (res_b h) - ps"
      "0 \<le> lengthR (res_a h)" "0 \<le> lengthR (res_b h)" by simp_all
    have la: "coverLo (map res_a (h # xs)) = location (res_a h)"
      using IH hd by (simp add: coverLo_Cons [OF ne(1)] upperBound_def)
    have lb: "coverLo (map res_b (h # xs)) = location (res_b h)"
      using IH hd by (simp add: coverLo_Cons [OF ne(2)] upperBound_def)
    have ha: "coverHi (map res_a (h # xs)) = coverHi (map res_a xs)"
      using IH hd by (simp add: coverHi_Cons [OF ne(1)] upperBound_def)
    have hb: "coverHi (map res_b (h # xs)) = coverHi (map res_b xs)"
      using IH hd by (simp add: coverHi_Cons [OF ne(2)] upperBound_def)
    show ?thesis
      unfolding la lb ha hb using IH hd by (simp add: upperBound_def)
  qed
qed


lemma sideDiffs_append: "sideDiffs s (xs @ ys) = sideDiffs s xs @ sideDiffs s ys"
  by (simp add: sideDiffs_def sideHunks_def)

lemma map_res_sideDiffs:
  "map res_a (sideDiffs s g) = map oRange (sideHunks s g)"
  "map res_b (sideDiffs s g) = map sideRange (sideHunks s g)"
  by (simp_all add: sideDiffs_def hunkDiff_def comp_def)

lemma sideDiffs_empty: "sideDiffs s g = [] \<longleftrightarrow> sideHunks s g = []"
  by (simp add: sideDiffs_def)

lemma set_sideDiffs: "x \<in> set (sideDiffs s hs) \<Longrightarrow> \<exists>h\<in>set hs. side h = s \<and> x = hunkDiff h"
  by (auto simp: sideDiffs_def sideHunks_def)

lemma side_step_none:
  assumes al: "alignedFrom n m lhs ps (sideDiffs s g @ sideDiffs s rest)"
    and le: "lhs \<le> rhs" and after: "\<forall>h\<in>set rest. rhs < location (oRange h)"
    and rn: "rhs \<le> n" and none: "sideHunks s g = []"
  shows "alignedFrom n m rhs (ps + (rhs - lhs)) (sideDiffs s rest)"
proof -
  have al': "alignedFrom n m lhs ps (sideDiffs s rest)"
    using al none by (simp add: sideDiffs_def)
  have "\<forall>x\<in>set (sideDiffs s rest). lhs + (rhs - lhs) \<le> location (res_a x)"
    using after by (fastforce dest: set_sideDiffs simp: hunkDiff_def)
  from alignedFrom_shift [OF al' _ this] le rn show ?thesis by simp
qed

lemma side_step_some:
  assumes al: "alignedFrom n m lhs ps (sideDiffs s g @ sideDiffs s rest)"
    and ub: "\<forall>h\<in>set g. upperBound (oRange h) \<le> rhs"
    and after: "\<forall>h\<in>set rest. rhs < location (oRange h)"
    and rn: "rhs \<le> n" and some: "sideHunks s g \<noteq> []"
  shows "alignedFrom n m rhs
           (coverHi (map sideRange (sideHunks s g))
              + (rhs - coverHi (map oRange (sideHunks s g))))
           (sideDiffs s rest)
       \<and> coverLo (map sideRange (sideHunks s g))
            - (coverLo (map oRange (sideHunks s g)) - lhs) = ps
       \<and> lhs \<le> coverLo (map oRange (sideHunks s g))
       \<and> coverLo (map sideRange (sideHunks s g)) \<le> coverHi (map sideRange (sideHunks s g))
       \<and> coverHi (map oRange (sideHunks s g)) \<le> rhs"
proof -
  have ne: "sideDiffs s g \<noteq> []" using some by (simp add: sideDiffs_empty)
  note p = alignedFrom_prefix [OF al ne, unfolded map_res_sideDiffs]
  have hi: "coverHi (map oRange (sideHunks s g)) \<le> rhs"
    using some ub by (intro coverHi_le) (auto simp: sideHunks_def)
  have "\<forall>x\<in>set (sideDiffs s rest).
      coverHi (map oRange (sideHunks s g)) + (rhs - coverHi (map oRange (sideHunks s g)))
        \<le> location (res_a x)"
    using after by (fastforce dest: set_sideDiffs simp: hunkDiff_def)
  from alignedFrom_shift [OF conjunct2 [OF conjunct2 [OF conjunct2 [OF conjunct2 [OF p]]]] _ this]
    hi rn
  have "alignedFrom n m rhs
           (coverHi (map sideRange (sideHunks s g))
              + (rhs - coverHi (map oRange (sideHunks s g))))
           (sideDiffs s rest)" by simp
  with p hi show ?thesis by simp
qed

lemma copyCommon_offsets:
  assumes "oOffset st \<le> t"
  shows "oOffset (copyCommon t st) = t"
    and "aOffset (copyCommon t st) = aOffset st + (t - oOffset st)"
    and "bOffset (copyCommon t st) = bOffset st + (t - oOffset st)"
  using assms by (simp_all add: copyCommon_def Let_def)

lemma nonNegative_copyCommon:
  assumes "\<forall>r\<in>set (result st). nonNegative r"
    and "0 \<le> oOffset st" and "0 \<le> aOffset st" and "0 \<le> bOffset st"
  shows "\<forall>r\<in>set (result (copyCommon t st)). nonNegative r"
  using assms by (auto simp: copyCommon_result)


lemma hunk_within:
  assumes "alignedFrom oLen aLen po pa (sideDiffs SideA hs)"
    and "alignedFrom oLen bLen po pb (sideDiffs SideB hs)"
    and "0 \<le> po" and "0 \<le> pa" and "0 \<le> pb" and "h \<in> set hs"
  shows "withinBounds oLen (if side h = SideA then aLen else bLen)
           \<lparr>res_a = oRange h, res_b = sideRange h\<rparr>"
proof (cases "side h")
  case SideA
  with assms(6) have "hunkDiff h \<in> set (sideDiffs SideA hs)"
    by (simp add: sideDiffs_def sideHunks_def)
  with alignedFrom_within [OF assms(1,3,4)] SideA show ?thesis
    by (auto simp: hunkDiff_def)
next
  case SideB
  with assms(6) have "hunkDiff h \<in> set (sideDiffs SideB hs)"
    by (simp add: sideDiffs_def sideHunks_def)
  with alignedFrom_within [OF assms(2,3,5)] SideB show ?thesis
    by (auto simp: hunkDiff_def)
qed

lemma sweepInv_step:
  assumes e: "extendRegion (upperBound (oRange hunk)) hs = (taken, rest, rhs)"
    and inv: "sweepInv oLen aLen bLen (hunk # hs) st"
  shows "sweepInv oLen aLen bLen rest (processRegion oLen aLen bLen hunk taken rhs st)"
proof -
  define lhs where "lhs = location (oRange hunk)"
  define g where "g = hunk # taken"
  define st1 where "st1 = copyCommon lhs st"
  have hs: "hs = taken @ rest" using e by (rule extendRegion_append)
  have all: "hunk # hs = g @ rest" using hs by (simp add: g_def)
  from inv have srt: "sorted (map (\<lambda>h. location (oRange h)) (hunk # hs))"
    and apart: "sidesApart (hunk # hs)"
    and ala: "alignedFrom oLen aLen (oOffset st) (aOffset st) (sideDiffs SideA (hunk # hs))"
    and alb: "alignedFrom oLen bLen (oOffset st) (bOffset st) (sideDiffs SideB (hunk # hs))"
    and lo: "oOffset st \<le> lhs"
    and nn: "0 \<le> oOffset st" "0 \<le> aOffset st" "0 \<le> bOffset st"
    and res: "\<forall>r\<in>set (result st). nonNegative r"
    by (simp_all add: sweepInv_def lhs_def)
  have bnd: "\<forall>h\<in>set (hunk # hs). withinBounds oLen (if side h = SideA then aLen else bLen)
           \<lparr>res_a = oRange h, res_b = sideRange h\<rparr>"
    using hunk_within [OF ala alb nn] by blast
  have bnd_g: "\<forall>h\<in>set g. withinBounds oLen (if side h = SideA then aLen else bLen)
           \<lparr>res_a = oRange h, res_b = sideRange h\<rparr>"
    using bnd unfolding all by simp
  have hunk_b: "0 \<le> lengthR (oRange hunk)" "upperBound (oRange hunk) \<le> oLen"
    "0 \<le> location (sideRange hunk)"
    using bnd by (simp_all add: withinBounds_def split: if_splits)
  have ub_le: "upperBound (oRange hunk) \<le> rhs" using e by (rule extendRegion_mono)
  have le: "lhs \<le> rhs" using ub_le hunk_b by (simp add: lhs_def upperBound_def)
  have rn: "rhs \<le> oLen"
    using bnd hunk_b
    by (intro extendRegion_bounded [OF e]) (auto simp: withinBounds_def split: if_splits)
  have srt_hs: "sorted (map (\<lambda>h. location (oRange h)) hs)" using srt by simp
  have after: "\<forall>h\<in>set rest. rhs < location (oRange h)"
    using extendRegion_rest_after [OF e srt_hs] .
  have touch: "touchingFrom (upperBound (oRange hunk)) taken"
    and rhs_end: "rhs = baseEnd (upperBound (oRange hunk)) taken"
    using extendRegion_touching [OF e] by simp_all
  have ub_g: "\<forall>h\<in>set g. upperBound (oRange h) \<le> rhs"
  proof -
    have "rhs = coverHi (map oRange g)" using rhs_end by (simp add: baseEnd_coverHi g_def)
    then show ?thesis by (auto simp: coverHi_def g_def)
  qed
  have ge_lhs: "\<forall>h\<in>set (hunk # hs). lhs \<le> location (oRange h)"
    using srt by (auto simp: lhs_def)
  have o1: "oOffset st1 = lhs"
    and a1: "aOffset st1 = aOffset st + (lhs - oOffset st)"
    and b1: "bOffset st1 = bOffset st + (lhs - oOffset st)"
    unfolding st1_def using copyCommon_offsets [OF lo] by simp_all
  have nn1: "0 \<le> lhs" "0 \<le> aOffset st1" "0 \<le> bOffset st1"
    using nn lo a1 b1 by simp_all
  have res1: "\<forall>r\<in>set (result st1). nonNegative r"
    unfolding st1_def using res nn by (rule nonNegative_copyCommon)
  have lhs_n: "lhs \<le> oLen" using le rn by simp
  have ala1: "alignedFrom oLen aLen lhs (aOffset st1) (sideDiffs SideA g @ sideDiffs SideA rest)"
  proof -
    have "\<forall>x\<in>set (sideDiffs SideA (hunk # hs)). oOffset st + (lhs - oOffset st) \<le> location (res_a x)"
      using ge_lhs by (fastforce dest: set_sideDiffs simp: hunkDiff_def)
    from alignedFrom_shift [OF ala _ this] lo lhs_n show ?thesis
      by (simp add: a1 all sideDiffs_append)
  qed
  have alb1: "alignedFrom oLen bLen lhs (bOffset st1) (sideDiffs SideB g @ sideDiffs SideB rest)"
  proof -
    have "\<forall>x\<in>set (sideDiffs SideB (hunk # hs)). oOffset st + (lhs - oOffset st) \<le> location (res_a x)"
      using ge_lhs by (fastforce dest: set_sideDiffs simp: hunkDiff_def)
    from alignedFrom_shift [OF alb _ this] lo lhs_n show ?thesis
      by (simp add: b1 all sideDiffs_append)
  qed
  have srt_rest: "sorted (map (\<lambda>h. location (oRange h)) rest)"
    using srt_hs hs by (simp add: sorted_append)
  have apart_rest: "sidesApart rest"
    using apart unfolding all sidesApart_def by (simp add: sorted_wrt_append)
  have after_le: "\<forall>h\<in>set rest. rhs \<le> location (oRange h)" using after by auto
  have rhs0: "0 \<le> rhs" using nn1 le by simp
  show ?thesis
  proof (cases "taken = []")
    case True
    then have g1: "g = [hunk]" by (simp add: g_def)
    have rhs_eq: "rhs = upperBound (oRange hunk)" using rhs_end True by simp
    have st2: "processRegion oLen aLen bLen hunk taken rhs st = emitSingle hunk rhs st1"
      using True by (simp add: processRegion_def Let_def st1_def lhs_def)
    show ?thesis
    proof (cases "side hunk")
      case SideA
      have sa: "sideHunks SideA g = [hunk]" and sb: "sideHunks SideB g = []"
        using SideA by (simp_all add: g1 sideHunks_def)
      have na: "sideHunks SideA g \<noteq> []" using sa by simp
      note A = side_step_some [OF ala1 ub_g after rn na]
      note B = side_step_none [OF alb1 le after rn sb]
      have A': "alignedFrom oLen aLen rhs (upperBound (sideRange hunk)) (sideDiffs SideA rest)"
        using A by (simp add: sa coverHi_single rhs_eq)
      have a_nn: "0 \<le> upperBound (sideRange hunk)"
        using bnd by (simp add: withinBounds_def upperBound_def split: if_splits)
      show ?thesis
        unfolding st2 sweepInv_def
        using SideA A' B srt_rest apart_rest after_le rhs0 a_nn nn1 le res1 hunk_b
        by (auto simp: emitSingle_def Let_def o1)
    next
      case SideB
      have sb: "sideHunks SideB g = [hunk]" and sa: "sideHunks SideA g = []"
        using SideB by (simp_all add: g1 sideHunks_def)
      have nb: "sideHunks SideB g \<noteq> []" using sb by simp
      note B = side_step_some [OF alb1 ub_g after rn nb]
      note A = side_step_none [OF ala1 le after rn sa]
      have B': "alignedFrom oLen bLen rhs (upperBound (sideRange hunk)) (sideDiffs SideB rest)"
        using B by (simp add: sb coverHi_single rhs_eq)
      have b_nn: "0 \<le> upperBound (sideRange hunk)"
        using bnd by (simp add: withinBounds_def upperBound_def split: if_splits)
      show ?thesis
        unfolding st2 sweepInv_def
        using SideB B' A srt_rest apart_rest after_le rhs0 b_nn nn1 le res1 hunk_b
        by (auto simp: emitSingle_def Let_def o1)
    qed
  next
    case False
    have mem: "(hunk, taken, rhs) \<in> set (regionsOf (hunk # hs))" using e by simp
    from region_both_sides [OF apart mem] False
    have na: "sideHunks SideA g \<noteq> []" and nb: "sideHunks SideB g \<noteq> []"
      by (simp_all add: hasSide_sideHunks g_def)
    note A = side_step_some [OF ala1 ub_g after rn na]
    note B = side_step_some [OF alb1 ub_g after rn nb]
    have st2: "processRegion oLen aLen bLen hunk taken rhs st =
        emitConflict g lhs rhs oLen aLen bLen st1"
      using False by (simp add: processRegion_def Let_def st1_def lhs_def g_def)
    have ra: "nonNegativeRange (extendOutward (covering (map sideRange (sideHunks SideA g)))
            (coverLo (map oRange (sideHunks SideA g)) - lhs)
            (rhs - coverHi (map oRange (sideHunks SideA g))))"
      using A nn1 by (simp add: nonNegativeRange_def extendOutward_def covering_def makeRange_def)
    have rb: "nonNegativeRange (extendOutward (covering (map sideRange (sideHunks SideB g)))
            (coverLo (map oRange (sideHunks SideB g)) - lhs)
            (rhs - coverHi (map oRange (sideHunks SideB g))))"
      using B nn1 by (simp add: nonNegativeRange_def extendOutward_def covering_def makeRange_def)
    have ro: "nonNegativeRange (makeRange lhs (rhs - lhs))"
      using nn1 le by (simp add: nonNegativeRange_def makeRange_def)
    have a_nn: "0 \<le> coverHi (map sideRange (sideHunks SideA g))
                 + (rhs - coverHi (map oRange (sideHunks SideA g)))"
      using A nn1 by simp
    have b_nn: "0 \<le> coverHi (map sideRange (sideHunks SideB g))
                 + (rhs - coverHi (map oRange (sideHunks SideB g)))"
      using B nn1 by simp
    show ?thesis
      unfolding st2 sweepInv_def emitConflict_covering [OF na nb bnd_g]
      using A B srt_rest apart_rest after_le rhs0 a_nn b_nn ra rb ro res1
      by simp
  qed
qed


lemma sweepInv_runRegions:
  "sweepInv oLen aLen bLen hs st
     \<Longrightarrow> sweepInv oLen aLen bLen [] (runRegions oLen aLen bLen (regionsOf hs) st)"
proof (induction hs arbitrary: st rule: regionsOf.induct)
  case 1
  then show ?case by simp
next
  case (2 hunk hs)
  obtain taken rest rhs where
    e: "extendRegion (upperBound (oRange hunk)) hs = (taken, rest, rhs)"
    by (cases "extendRegion (upperBound (oRange hunk)) hs") auto
  from "2.IH" [OF e [symmetric] refl sweepInv_step [OF e "2.prems"]] e
  show ?case by simp
qed

lemma hunkDiff_addHunk: "hunkDiff (addHunk s d) = d"
  by (simp add: hunkDiff_def addHunk_def)

lemma sideDiffs_sortedHunks:
  assumes "separated m1" and "separated m2"
  shows "sideDiffs SideA (sortedHunks m1 m2) = m1"
    and "sideDiffs SideB (sortedHunks m1 m2) = m2"
  by (simp_all add: sideDiffs_def sideHunks_def filter_side_sortedHunks [OF assms]
      comp_def hunkDiff_addHunk)

lemma sweepInv_initial:
  assumes "validDiff oLen aLen m1" and "validDiff oLen bLen m2"
  shows "sweepInv oLen aLen bLen (sortedHunks m1 m2) initialState"
proof -
  from assms have s1: "separated m1" and s2: "separated m2"
    and a1: "alignedFrom oLen aLen 0 0 m1" and a2: "alignedFrom oLen bLen 0 0 m2"
    by (simp_all add: validDiff_def)
  have w1: "\<forall>x\<in>set m1. withinBounds oLen aLen x" using a1 by (rule alignedFrom_within) simp_all
  have w2: "\<forall>x\<in>set m2. withinBounds oLen bLen x" using a2 by (rule alignedFrom_within) simp_all
  have lo: "\<forall>h\<in>set (sortedHunks m1 m2). 0 \<le> location (oRange h)"
    using w1 w2 unfolding set_sortedHunks by (auto simp: oRange_addHunk withinBounds_def)
  show ?thesis
    unfolding sweepInv_def
    using lo a1 a2 sidesApart_sortedHunks [OF s1 s2]
    by (simp add: sideDiffs_sortedHunks [OF s1 s2] sortedHunks_sorted initialState_def)
qed

text \<open>
  C7. When both diffs keep the differ's contract (hunks in order, apart, and aligned with
  the equal regions between them), every range in the result of \<open>diff3MergeIndices\<close> has
  a location and a length that are not negative, the skew-corrected \<open>aRange\<close>, \<open>oRange\<close>
  and \<open>bRange\<close> of every conflict among them; every ok record has length at least 1 and
  no negative index.
\<close>

theorem output_ranges_nonnegative:
  assumes "validDiff oLen aLen m1" and "validDiff oLen bLen m2"
  shows "\<forall>r\<in>set (mergeHunks m1 m2 oLen aLen bLen). nonNegative r"
proof -
  define st where "st = runRegions oLen aLen bLen (regionsOf (sortedHunks m1 m2)) initialState"
  have "sweepInv oLen aLen bLen [] st"
    unfolding st_def using assms by (intro sweepInv_runRegions sweepInv_initial)
  then have "\<forall>r\<in>set (result (copyCommon oLen st)). nonNegative r"
    by (intro nonNegative_copyCommon) (simp_all add: sweepInv_def)
  then show ?thesis by (simp add: mergeHunks_runRegions st_def)
qed

text \<open>
  Witness for C7: base \<open>[1, 2, 3, 4]\<close>, side a \<open>[1, 20, 3, 4]\<close>, side b \<open>[1, 9, 4]\<close>.
\<close>

theorem output_ranges_nonnegative_witness:
  "validDiff 4 4 [\<lparr>res_a = makeRange 1 1, res_b = makeRange 1 1\<rparr>]
   \<and> validDiff 4 3 [\<lparr>res_a = makeRange 1 2, res_b = makeRange 1 1\<rparr>]
   \<and> mergeHunks [\<lparr>res_a = makeRange 1 1, res_b = makeRange 1 1\<rparr>]
        [\<lparr>res_a = makeRange 1 2, res_b = makeRange 1 1\<rparr>] 4 4 3 =
       [OkA 1 0 (Some 0) (Some 0),
        Conflict (makeRange 1 2) (makeRange 1 2) (makeRange 1 1),
        OkA 1 3 (Some 3) (Some 2)]
   \<and> list_all nonNegative (mergeHunks [\<lparr>res_a = makeRange 1 1, res_b = makeRange 1 1\<rparr>]
        [\<lparr>res_a = makeRange 1 2, res_b = makeRange 1 1\<rparr>] 4 4 3)"
proof -
  have v1: "validDiff 4 4 [\<lparr>res_a = makeRange 1 1, res_b = makeRange 1 1\<rparr>]"
    by (simp add: validDiff_def separated_def makeRange_def upperBound_def)
  have v2: "validDiff 4 3 [\<lparr>res_a = makeRange 1 2, res_b = makeRange 1 1\<rparr>]"
    by (simp add: validDiff_def separated_def makeRange_def upperBound_def)
  have m: "mergeHunks [\<lparr>res_a = makeRange 1 1, res_b = makeRange 1 1\<rparr>]
        [\<lparr>res_a = makeRange 1 2, res_b = makeRange 1 1\<rparr>] 4 4 3 =
       [OkA 1 0 (Some 0) (Some 0),
        Conflict (makeRange 1 2) (makeRange 1 2) (makeRange 1 1),
        OkA 1 3 (Some 3) (Some 2)]"
    by (simp add: mergeHunks_def sortedHunks_def addHunk_def initialState_def processRegion_def
        copyCommon_def emitConflict_def updateBounds_def makeRange_def upperBound_def Let_def)
  show ?thesis
    using output_ranges_nonnegative [OF v1 v2] v1 v2 m by (simp add: list_all_iff)
qed


section \<open>Properties of the differ\<close>

subsection \<open>C6: equal sequences have an empty diff\<close>

lemma eliminatePrefix_all_equal:
  assumes "seqLength a = seqLength b"
    and "\<forall>i\<in>{0..<seqLength a}. areEqual (at a i) (at b i)"
    and "0 \<le> offset" and "offset \<le> seqLength a"
  shows "eliminatePrefix areEqual a b offset = seqLength a"
  using assms
proof (induction areEqual a b offset rule: eliminatePrefix.induct)
  case (1 areEqual a b offset)
  show ?case
  proof (cases "offset < seqLength a")
    case True
    with "1.prems" have c: "offset < seqLength a \<and> offset < seqLength b
        \<and> areEqual (at a offset) (at b offset)" by simp
    have "eliminatePrefix areEqual a b (offset + 1) = seqLength a"
      using "1.prems" True by (intro "1.IH" [OF c]) simp_all
    with c show ?thesis by (subst eliminatePrefix.simps) simp
  next
    case False
    with "1.prems" show ?thesis by (subst eliminatePrefix.simps) simp
  qed
qed

lemma diffIndicesArray_equal:
  assumes "seqLength a = seqLength b"
    and "\<forall>i\<in>{0..<seqLength a}. areEqual (at a i) (at b i)"
  shows "diffIndicesArray diff_core a b areEqual = []"
proof -
  have "eliminatePrefix areEqual a b 0 = seqLength a"
    using assms by (intro eliminatePrefix_all_equal) (simp_all add: seqLength_def)
  with assms(1) show ?thesis by (simp add: diffIndicesArray_def Let_def)
qed

lemma stringLoop_all_equal:
  assumes "list_all (\<lambda>d. fst d = EQUAL) ds"
    and "aIndexS st = lastA st" and "bIndexS st = lastB st"
  shows "resultS (stringLoop ds st) = resultS st
       \<and> aIndexS (stringLoop ds st) = lastA (stringLoop ds st)
       \<and> bIndexS (stringLoop ds st) = lastB (stringLoop ds st)"
  using assms
proof (induction ds st rule: stringLoop.induct)
  case (1 st)
  then show ?case by simp
next
  case (2 str ds st)
  have f: "flush st = st" using "2.prems" by (simp add: flush_def)
  from "2.prems" have "list_all (\<lambda>d. fst d = EQUAL) ds" by simp
  from "2.IH" [OF refl refl refl this] f show ?case by (simp add: Let_def)
next
  case (3 str ds st)
  then show ?case by simp
next
  case (4 str ds st)
  then show ?case by simp
qed

lemma diffIndicesString_all_equal:
  assumes "list_all (\<lambda>d. fst d = EQUAL) (fastDiff a b)"
  shows "diffIndicesString fastDiff a b = []"
proof -
  define st0 where "st0 = \<lparr>aIndexS = 0, bIndexS = 0, lastA = 0, lastB = 0, resultS = []\<rparr>"
  have "resultS (stringLoop (fastDiff a b) st0) = resultS st0
       \<and> aIndexS (stringLoop (fastDiff a b) st0) = lastA (stringLoop (fastDiff a b) st0)
       \<and> bIndexS (stringLoop (fastDiff a b) st0) = lastB (stringLoop (fastDiff a b) st0)"
    using assms by (intro stringLoop_all_equal) (simp_all add: st0_def)
  then show ?thesis
    by (simp add: diffIndicesString_def st0_def [symmetric] flush_def) (simp add: st0_def)
qed

text \<open>
  C6. \<open>diffIndicesArray\<close> returns the empty list when \<open>a\<close> and \<open>b\<close> are the same
  reference (the short cut, whatever the predicate says), and when they have the same
  length and are equal element by element under the active predicate.
  \<open>diffIndices\<close> returns the empty list on equal sequences: for two arrays by the
  above with the default predicate, for two strings when the script \<open>fast-diff\<close>
  returns for equal texts holds \<open>EQUAL\<close> entries only.
\<close>

theorem equal_sequences_empty_diff:
  "(strictEq a b \<longrightarrow> diffIndicesArray diff_core a b areEqual = [])
   \<and> (seqLength a = seqLength b \<and> (\<forall>i\<in>{0..<seqLength a}. areEqual (at a i) (at b i))
        \<longrightarrow> diffIndicesArray diff_core a b areEqual = [])
   \<and> (items a = items b
        \<and> (isString a \<and> isString b
             \<longrightarrow> list_all (\<lambda>d. fst d = EQUAL) (fastDiff (items a) (items b)))
        \<longrightarrow> diffIndices fastDiff diff_core a b = [])"
proof -
  have 1: "strictEq a b \<longrightarrow> diffIndicesArray diff_core a b areEqual = []"
    by (simp add: diffIndicesArray_def)
  have 2: "seqLength a = seqLength b \<and> (\<forall>i\<in>{0..<seqLength a}. areEqual (at a i) (at b i))
        \<longrightarrow> diffIndicesArray diff_core a b areEqual = []"
    using diffIndicesArray_equal by blast
  have 3: "diffIndices fastDiff diff_core a b = []"
    if eq: "items a = items b"
      and str: "isString a \<and> isString b
             \<longrightarrow> list_all (\<lambda>d. fst d = EQUAL) (fastDiff (items a) (items b))"
  proof (cases "isString a \<and> isString b")
    case True
    with str show ?thesis by (simp add: diffIndices_def diffIndicesString_all_equal)
  next
    case False
    have "diffIndicesArray diff_core a b areReferenceEqual = []"
      using eq by (intro diffIndicesArray_equal)
        (simp_all add: seqLength_def at_def areReferenceEqual_def)
    with False show ?thesis by (auto simp: diffIndices_def)
  qed
  from 1 2 3 show ?thesis by blast
qed

text \<open>
  Witness for C6: the array \<open>[1, 2, 3]\<close> against itself and against a clone, and the
  string \<open>abc\<close> against itself. The \<open>diff_core\<close> used would report a change if it
  were called.
\<close>

theorem equal_sequences_empty_diff_witness:
  "diffIndicesArray (\<lambda>i N j M eq. [(0, 1, 0, 1)]) (JSArray 7 [1, 2, 3 :: int]) (JSArray 7 [1, 2, 3])
      (\<lambda>x y. False) = []
   \<and> diffIndicesArray (\<lambda>i N j M eq. [(0, 1, 0, 1)]) (JSArray 7 [1, 2, 3 :: int]) (JSArray 8 [1, 2, 3])
      areReferenceEqual = []
   \<and> diffIndices (\<lambda>s t. if s = t then [(EQUAL, s)] else [(DELETE, s), (INSERT, t)])
      (\<lambda>i N j M eq. [(0, 1, 0, 1)]) (JSString ''abc'') (JSString ''abc'') = []
   \<and> diffIndices (\<lambda>s t. if s = t then [(EQUAL, s)] else [(DELETE, s), (INSERT, t)])
      (\<lambda>i N j M eq. [(0, 1, 0, 1)]) (JSArray 7 [1, 2, 3 :: int]) (JSArray 8 [1, 2, 3]) = []"
proof -
  have a: "strictEq (JSArray 7 [1, 2, 3 :: int]) (JSArray 7 [1, 2, 3])" by simp
  have b: "seqLength (JSArray 7 [1, 2, 3 :: int]) = seqLength (JSArray 8 [1, 2, 3 :: int])
      \<and> (\<forall>i\<in>{0..<seqLength (JSArray 7 [1, 2, 3 :: int])}.
            areReferenceEqual (at (JSArray 7 [1, 2, 3 :: int]) i) (at (JSArray 8 [1, 2, 3]) i))"
    by (simp add: seqLength_def at_def areReferenceEqual_def)
  have c: "items (JSString ''abc'') = items (JSString ''abc'')
      \<and> (isString (JSString ''abc'') \<and> isString (JSString ''abc'')
           \<longrightarrow> list_all (\<lambda>d. fst d = EQUAL)
                 ((\<lambda>s t. if s = t then [(EQUAL, s)] else [(DELETE, s), (INSERT, t)])
                    (items (JSString ''abc'')) (items (JSString ''abc''))))"
    by simp
  have d: "items (JSArray 7 [1, 2, 3 :: int]) = items (JSArray 8 [1, 2, 3 :: int])
      \<and> (isString (JSArray 7 [1, 2, 3 :: int]) \<and> isString (JSArray 8 [1, 2, 3 :: int])
           \<longrightarrow> list_all (\<lambda>d. fst d = EQUAL)
                 ((\<lambda>s t. if s = t then [(EQUAL, s)] else [(DELETE, s), (INSERT, t)])
                    (items (JSArray 7 [1, 2, 3 :: int])) (items (JSArray 8 [1, 2, 3 :: int]))))"
    by simp
  from equal_sequences_empty_diff
    [where a = "JSArray 7 [1, 2, 3 :: int]" and b = "JSArray 7 [1, 2, 3]"
       and diff_core = "\<lambda>i N j M eq. [(0, 1, 0, 1)]" and areEqual = "\<lambda>x y. False"] a
  have 1: "diffIndicesArray (\<lambda>i N j M eq. [(0, 1, 0, 1)]) (JSArray 7 [1, 2, 3 :: int])
      (JSArray 7 [1, 2, 3]) (\<lambda>x y. False) = []" by blast
  from equal_sequences_empty_diff
    [where a = "JSArray 7 [1, 2, 3 :: int]" and b = "JSArray 8 [1, 2, 3]"
       and diff_core = "\<lambda>i N j M eq. [(0, 1, 0, 1)]" and areEqual = areReferenceEqual] b
  have 2: "diffIndicesArray (\<lambda>i N j M eq. [(0, 1, 0, 1)]) (JSArray 7 [1, 2, 3 :: int])
      (JSArray 8 [1, 2, 3]) areReferenceEqual = []" by blast
  from equal_sequences_empty_diff
    [where a = "JSString ''abc''" and b = "JSString ''abc''"
       and fastDiff = "\<lambda>s t. if s = t then [(EQUAL, s)] else [(DELETE, s), (INSERT, t)]"
       and diff_core = "\<lambda>i N j M eq. [(0, 1, 0, 1)]"] c
  have 3: "diffIndices (\<lambda>s t. if s = t then [(EQUAL, s)] else [(DELETE, s), (INSERT, t)])
      (\<lambda>i N j M eq. [(0, 1, 0, 1)]) (JSString ''abc'') (JSString ''abc'') = []" by blast
  from equal_sequences_empty_diff
    [where a = "JSArray 7 [1, 2, 3 :: int]" and b = "JSArray 8 [1, 2, 3]"
       and fastDiff = "\<lambda>s t. if s = t then [(EQUAL, s)] else [(DELETE, s), (INSERT, t)]"
       and diff_core = "\<lambda>i N j M eq. [(0, 1, 0, 1)]"] d
  have 4: "diffIndices (\<lambda>s t. if s = t then [(EQUAL, s)] else [(DELETE, s), (INSERT, t)])
      (\<lambda>i N j M eq. [(0, 1, 0, 1)]) (JSArray 7 [1, 2, 3 :: int]) (JSArray 8 [1, 2, 3]) = []"
    by blast
  from 1 2 3 4 show ?thesis by blast
qed


subsection \<open>C5: the diff is a list of changed regions\<close>

lemma eliminatePrefix_props:
  assumes "0 \<le> offset" and "offset \<le> seqLength a" and "offset \<le> seqLength b"
  shows "offset \<le> eliminatePrefix areEqual a b offset
       \<and> eliminatePrefix areEqual a b offset \<le> seqLength a
       \<and> eliminatePrefix areEqual a b offset \<le> seqLength b
       \<and> (\<forall>k\<in>{offset..<eliminatePrefix areEqual a b offset}. areEqual (at a k) (at b k))"
  using assms
proof (induction areEqual a b offset rule: eliminatePrefix.induct)
  case (1 areEqual a b offset)
  show ?case
  proof (cases "offset < seqLength a \<and> offset < seqLength b
        \<and> areEqual (at a offset) (at b offset)")
    case True
    have e: "eliminatePrefix areEqual a b offset = eliminatePrefix areEqual a b (offset + 1)"
      using True by (subst eliminatePrefix.simps) simp
    have IH: "offset + 1 \<le> eliminatePrefix areEqual a b (offset + 1)
       \<and> eliminatePrefix areEqual a b (offset + 1) \<le> seqLength a
       \<and> eliminatePrefix areEqual a b (offset + 1) \<le> seqLength b
       \<and> (\<forall>k\<in>{offset + 1..<eliminatePrefix areEqual a b (offset + 1)}.
             areEqual (at a k) (at b k))"
      using True "1.prems" by (intro "1.IH" [OF True]) simp_all
    have "\<forall>k\<in>{offset..<eliminatePrefix areEqual a b (offset + 1)}. areEqual (at a k) (at b k)"
    proof
      fix k assume k: "k \<in> {offset..<eliminatePrefix areEqual a b (offset + 1)}"
      show "areEqual (at a k) (at b k)"
      proof (cases "k = offset")
        case True
        with \<open>offset < seqLength a \<and> offset < seqLength b
            \<and> areEqual (at a offset) (at b offset)\<close> show ?thesis by simp
      next
        case False
        with k have "k \<in> {offset + 1..<eliminatePrefix areEqual a b (offset + 1)}" by simp
        with IH show ?thesis by blast
      qed
    qed
    with IH show ?thesis unfolding e by simp
  next
    case False
    then have "eliminatePrefix areEqual a b offset = offset"
      by (subst eliminatePrefix.simps) auto
    with "1.prems" show ?thesis by simp
  qed
qed

lemma eliminateSuffix_props:
  assumes "eliminateSuffix areEqual a b offset aLength bLength = (aL, bL)"
    and "offset \<le> aLength" and "offset \<le> bLength"
  shows "offset \<le> aL \<and> offset \<le> bL \<and> aL \<le> aLength \<and> aLength - aL = bLength - bL
       \<and> (\<forall>k\<in>{0..<aLength - aL}. areEqual (at a (aL + k)) (at b (bL + k)))"
  using assms
proof (induction areEqual a b offset aLength bLength rule: eliminateSuffix.induct)
  case (1 areEqual a b offset aLength bLength)
  show ?case
  proof (cases "aLength > offset \<and> bLength > offset")
    case True
    show ?thesis
    proof (cases "areEqual (at a (aLength - 1)) (at b (bLength - 1))")
      case eq: True
      have e: "eliminateSuffix areEqual a b offset (aLength - 1) (bLength - 1) = (aL, bL)"
        using "1.prems"(1) True eq by (subst (asm) eliminateSuffix.simps) simp
      have IH: "offset \<le> aL \<and> offset \<le> bL \<and> aL \<le> aLength - 1
         \<and> aLength - 1 - aL = bLength - 1 - bL
         \<and> (\<forall>k\<in>{0..<aLength - 1 - aL}. areEqual (at a (aL + k)) (at b (bL + k)))"
        using True eq by (intro "1.IH" [OF True _ e]) simp_all
      have "\<forall>k\<in>{0..<aLength - aL}. areEqual (at a (aL + k)) (at b (bL + k))"
      proof
        fix k assume k: "k \<in> {0..<aLength - aL}"
        show "areEqual (at a (aL + k)) (at b (bL + k))"
        proof (cases "k = aLength - 1 - aL")
          case True
          with IH have "aL + k = aLength - 1" "bL + k = bLength - 1" by simp_all
          with eq show ?thesis by simp
        next
          case False
          with k have "k \<in> {0..<aLength - 1 - aL}" by simp
          with IH show ?thesis by blast
        qed
      qed
      with IH show ?thesis by simp
    next
      case False
      with True "1.prems"(1) have "(aL, bL) = (aLength, bLength)"
        by (subst (asm) eliminateSuffix.simps) simp
      with "1.prems" show ?thesis by simp
    qed
  next
    case False
    with "1.prems"(1) have "(aL, bL) = (aLength, bLength)"
      by (subst (asm) eliminateSuffix.simps) auto
    with "1.prems" show ?thesis by simp
  qed
qed

lemma changesFrom_front:
  assumes "changesFrom eq i j e f hs" and "i' \<le> i" and "i - i' = j - j'"
    and "\<forall>k\<in>{0..<i - i'}. eq (i' + k) (j' + k)"
  shows "changesFrom eq i' j' e f hs"
proof -
  have gap: "\<forall>k\<in>{0..<t - i'}. eq (i' + k) (j' + k)"
    if "i \<le> t" and "\<forall>k\<in>{0..<t - i}. eq (i + k) (j + k)" for t
  proof
    fix k assume k: "k \<in> {0..<t - i'}"
    show "eq (i' + k) (j' + k)"
    proof (cases "k < i - i'")
      case True
      with k assms(4) show ?thesis by simp
    next
      case False
      with k have "k - (i - i') \<in> {0..<t - i}" by simp
      with that(2) have "eq (i + (k - (i - i'))) (j + (k - (i - i')))" by blast
      moreover have "i + (k - (i - i')) = i' + k" by simp
      moreover have "j + (k - (i - i')) = j' + k" using assms(3) by simp
      ultimately show ?thesis by simp
    qed
  qed
  show ?thesis
  proof (cases hs)
    case Nil
    with assms gap [of e] show ?thesis by simp
  next
    case (Cons h hs')
    with assms gap [of "location (res_a h)"] show ?thesis by simp
  qed
qed

lemma changesFrom_back:
  assumes "changesFrom eq i j e f hs" and "e \<le> e'" and "e' - e = f' - f"
    and "\<forall>k\<in>{0..<e' - e}. eq (e + k) (f + k)"
  shows "changesFrom eq i j e' f' hs"
  using assms
proof (induction hs arbitrary: i j)
  case Nil
  have "\<forall>k\<in>{0..<e' - i}. eq (i + k) (j + k)"
  proof
    fix k assume k: "k \<in> {0..<e' - i}"
    show "eq (i + k) (j + k)"
    proof (cases "k < e - i")
      case True
      with k Nil.prems(1) show ?thesis by simp
    next
      case False
      with k have "k - (e - i) \<in> {0..<e' - e}" by simp
      with Nil.prems(4) have "eq (e + (k - (e - i))) (f + (k - (e - i)))" by blast
      moreover have "e + (k - (e - i)) = i + k" by simp
      moreover have "f + (k - (e - i)) = j + k" using Nil.prems(1) by simp
      ultimately show ?thesis by simp
    qed
  qed
  with Nil.prems show ?case by simp
next
  case (Cons h hs)
  from Cons.prems(1) have
    "changesFrom eq (upperBound (res_a h)) (upperBound (res_b h)) e f hs" by simp
  from Cons.IH [OF this Cons.prems(2,3,4)] Cons.prems(1) show ?case by simp
qed

lemma diffIndicesArray_changedRegions:
  assumes core: "coreContract diff_core (\<lambda>i j. areEqual (at a i) (at b j))"
    and same: "strictEq a b \<longrightarrow> seqLength a = seqLength b
                 \<and> (\<forall>i\<in>{0..<seqLength a}. areEqual (at a i) (at b i))"
  shows "changedRegions areEqual a b (diffIndicesArray diff_core a b areEqual)"
proof (cases "strictEq a b")
  case True
  with same show ?thesis by (simp add: diffIndicesArray_def changedRegions_def seqLength_def)
next
  case False
  define eq where "eq = (\<lambda>i j. areEqual (at a i) (at b j))"
  define offset where "offset = eliminatePrefix areEqual a b 0"
  have la: "0 \<le> seqLength a" and lb: "0 \<le> seqLength b" by (simp_all add: seqLength_def)
  have p: "0 \<le> offset \<and> offset \<le> seqLength a \<and> offset \<le> seqLength b
       \<and> (\<forall>k\<in>{0..<offset}. areEqual (at a k) (at b k))"
    unfolding offset_def using eliminatePrefix_props [OF _ la lb, where areEqual = areEqual] by simp
  show ?thesis
  proof (cases "offset = seqLength a \<and> offset = seqLength b")
    case True
    with False p show ?thesis
      by (simp add: diffIndicesArray_def changedRegions_def offset_def [symmetric])
  next
    case ne: False
    obtain aL bL where
      s: "eliminateSuffix areEqual a b offset (seqLength a) (seqLength b) = (aL, bL)"
      by (cases "eliminateSuffix areEqual a b offset (seqLength a) (seqLength b)") auto
    have sp: "offset \<le> aL \<and> offset \<le> bL \<and> aL \<le> seqLength a
        \<and> seqLength a - aL = seqLength b - bL
        \<and> (\<forall>k\<in>{0..<seqLength a - aL}. areEqual (at a (aL + k)) (at b (bL + k)))"
      using p by (intro eliminateSuffix_props [OF s]) simp_all
    define out where
      "out = map coreResult (diff_core offset (aL - offset) offset (bL - offset) eq)"
    have r: "diffIndicesArray diff_core a b areEqual = out"
      using False ne s
      by (auto simp: diffIndicesArray_def offset_def [symmetric] out_def eq_def)
    have "changesFrom eq offset offset (offset + (aL - offset)) (offset + (bL - offset)) out"
      unfolding out_def eq_def
      using sp
      by (intro core [unfolded coreContract_def, rule_format]) simp
    then have c: "changesFrom eq offset offset aL bL out" by simp
    have c1: "changesFrom eq 0 0 aL bL out"
      using p by (intro changesFrom_front [OF c]) (simp_all add: eq_def)
    have c2: "changesFrom eq 0 0 (seqLength a) (seqLength b) out"
      using sp by (intro changesFrom_back [OF c1]) (simp_all add: eq_def)
    then show ?thesis by (simp add: changedRegions_def r eq_def)
  qed
qed


lemma stringLoop_hunksOf:
  "resultS (flush (stringLoop ds st)) =
     resultS st @ hunksOf ds (aIndexS st) (bIndexS st) (lastA st) (lastB st)"
proof (induction ds st rule: stringLoop.induct)
  case (1 st)
  then show ?case by (simp add: flush_def)
next
  case (2 str ds st)
  from "2.IH" [OF refl refl refl] show ?case by (simp add: Let_def flush_def)
next
  case (3 str ds st)
  then show ?case by simp
next
  case (4 str ds st)
  then show ?case by simp
qed

lemma diffIndicesString_hunksOf:
  "diffIndicesString fastDiff a b = hunksOf (fastDiff a b) 0 0 0 0"
  by (simp add: diffIndicesString_def stringLoop_hunksOf)


lemma drop_eq_append:
  assumes "str @ rest = drop k xs" and "k \<le> length xs"
  shows "k + length str \<le> length xs" and "drop (k + length str) xs = rest"
    and "\<forall>i<length str. xs ! (k + i) = str ! i"
proof -
  have len: "length str + length rest = length xs - k"
    using arg_cong [OF assms(1), of length] by simp
  with assms(2) show 1: "k + length str \<le> length xs" by simp
  have "drop (length str) (drop k xs) = rest"
    using assms(1) [symmetric] by simp
  then show "drop (k + length str) xs = rest" by (simp add: add.commute)
  show "\<forall>i<length str. xs ! (k + i) = str ! i"
  proof (intro allI impI)
    fix i assume i: "i < length str"
    with 1 have "xs ! (k + i) = drop k xs ! i" by simp
    also have "\<dots> = (str @ rest) ! i" using assms(1) by simp
    also have "\<dots> = str ! i" using i by (simp add: nth_append)
    finally show "xs ! (k + i) = str ! i" .
  qed
qed

lemma at_in_range:
  "0 \<le> i \<Longrightarrow> nat i < length (items A) \<Longrightarrow> at A i = Some (items A ! nat i)"
  by (simp add: at_def seqLength_def)

lemma hunksOf_changes:
  assumes "sourceText ds = drop (nat ai) (items A)" and "targetText ds = drop (nat bi) (items B)"
    and "0 \<le> la" and "la \<le> ai" and "0 \<le> lb" and "lb \<le> bi"
    and "ai \<le> seqLength A" and "bi \<le> seqLength B"
  shows "changesFrom (\<lambda>i j. areReferenceEqual (at A i) (at B j)) la lb
           (seqLength A) (seqLength B) (hunksOf ds ai bi la lb)"
  using assms
proof (induction ds ai bi la lb rule: hunksOf.induct)
  case (1 ai bi la lb)
  from "1.prems" have e: "ai = seqLength A" "bi = seqLength B"
    by (simp_all add: seqLength_def)
  with "1.prems" show ?case by (auto simp: makeRange_def upperBound_def)
next
  case (2 str ds ai bi la lb)
  define n where "n = int (length str)"
  have ka: "nat ai \<le> length (items A)" and kb: "nat bi \<le> length (items B)"
    using "2.prems" by (simp_all add: seqLength_def)
  have sa: "str @ sourceText ds = drop (nat ai) (items A)"
    and sb: "str @ targetText ds = drop (nat bi) (items B)"
    using "2.prems" by simp_all
  note A = drop_eq_append [OF sa ka]
  note B = drop_eq_append [OF sb kb]
  have nat_a: "nat (ai + n) = nat ai + length str" and nat_b: "nat (bi + n) = nat bi + length str"
    using "2.prems" by (simp_all add: n_def nat_add_distrib)
  have IH: "changesFrom (\<lambda>i j. areReferenceEqual (at A i) (at B j)) (ai + n) (bi + n)
           (seqLength A) (seqLength B) (hunksOf ds (ai + n) (bi + n) (ai + n) (bi + n))"
    unfolding n_def
    using "2.prems" A(1,2) B(1,2)
    by (intro "2.IH") (simp_all add: nat_add_distrib seqLength_def)
  have gap: "\<forall>k\<in>{0..<ai + n - ai}. areReferenceEqual (at A (ai + k)) (at B (bi + k))"
  proof
    fix k assume k: "k \<in> {0..<ai + n - ai}"
    then have k': "0 \<le> k" "nat k < length str" by (auto simp: n_def)
    have ia: "nat (ai + k) = nat ai + nat k" and ib: "nat (bi + k) = nat bi + nat k"
      using "2.prems" k' by (simp_all add: nat_add_distrib)
    have "at A (ai + k) = Some (items A ! (nat ai + nat k))"
      using "2.prems" k' A(1) by (subst at_in_range) (simp_all add: ia)
    moreover have "at B (bi + k) = Some (items B ! (nat bi + nat k))"
      using "2.prems" k' B(1) by (subst at_in_range) (simp_all add: ib)
    ultimately show "areReferenceEqual (at A (ai + k)) (at B (bi + k))"
      using A(3) B(3) k' by (simp add: areReferenceEqual_def)
  qed
  have c: "changesFrom (\<lambda>i j. areReferenceEqual (at A i) (at B j)) ai bi
           (seqLength A) (seqLength B) (hunksOf ds (ai + n) (bi + n) (ai + n) (bi + n))"
    using gap by (intro changesFrom_front [OF IH]) (simp_all add: n_def)
  show ?case
  proof (cases "ai > la \<or> bi > lb")
    case True
    with c "2.prems" show ?thesis
      by (simp add: n_def [symmetric] makeRange_def upperBound_def)
  next
    case False
    with "2.prems" have "la = ai" "lb = bi" by simp_all
    with c False show ?thesis by (simp add: n_def [symmetric])
  qed
next
  case (3 str ds ai bi la lb)
  have kb: "nat bi \<le> length (items B)"
    using "3.prems" by (simp add: seqLength_def)
  have sb: "str @ targetText ds = drop (nat bi) (items B)" using "3.prems" by simp
  note B = drop_eq_append [OF sb kb]
  show ?case
    using "3.prems" B(1,2)
    by (simp, intro "3.IH") (simp_all add: nat_add_distrib seqLength_def)
next
  case (4 str ds ai bi la lb)
  have ka: "nat ai \<le> length (items A)"
    using "4.prems" by (simp add: seqLength_def)
  have sa: "str @ sourceText ds = drop (nat ai) (items A)" using "4.prems" by simp
  note A = drop_eq_append [OF sa ka]
  show ?case
    using "4.prems" A(1,2)
    by (simp, intro "4.IH") (simp_all add: nat_add_distrib seqLength_def)
qed

lemma diffIndicesString_changedRegions:
  assumes "editScript (items A) (items B) (fastDiff (items A) (items B))"
  shows "changedRegions areReferenceEqual A B (diffIndicesString fastDiff (items A) (items B))"
  unfolding changedRegions_def diffIndicesString_hunksOf
  using assms by (intro hunksOf_changes) (simp_all add: editScript_def seqLength_def)


lemma wholeWindowCore_contract: "coreContract wholeWindowCore eq"
  by (auto simp: coreContract_def wholeWindowCore_def coreResult_def makeRange_def
      upperBound_def)

text \<open>
  C5. The result of \<open>diffIndices\<close> lists changed regions only: the hunks are in order
  and overlap in neither sequence, every hunk is non-empty on at least one side, and
  the elements before, between and after the hunks pair up and are equal, with all
  positions counted in the whole sequences although the differ only sees what is left
  after the common prefix and suffix. For arrays this holds for any predicate; the
  hypotheses are the contracts of the two libraries, and that the predicate holds of
  every element and itself when both arguments are one and the same array.
\<close>

theorem diffIndices_changed_regions:
  assumes core: "coreContract diff_core (\<lambda>i j. areEqual (at a i) (at b j))"
    and same: "strictEq a b \<longrightarrow> seqLength a = seqLength b
                 \<and> (\<forall>i\<in>{0..<seqLength a}. areEqual (at a i) (at b i))"
    and script: "isString a \<and> isString b
                 \<longrightarrow> editScript (items a) (items b) (fastDiff (items a) (items b))"
  shows "changedRegions areEqual a b (diffIndicesArray diff_core a b areEqual)
       \<and> (areEqual = areReferenceEqual
            \<longrightarrow> changedRegions areReferenceEqual a b (diffIndices fastDiff diff_core a b))"
proof -
  have arr: "changedRegions areEqual a b (diffIndicesArray diff_core a b areEqual)"
    using core same by (rule diffIndicesArray_changedRegions)
  have "changedRegions areReferenceEqual a b (diffIndices fastDiff diff_core a b)"
    if "areEqual = areReferenceEqual"
  proof (cases "isString a \<and> isString b")
    case True
    with script have "editScript (items a) (items b) (fastDiff (items a) (items b))" by simp
    from diffIndicesString_changedRegions [where fastDiff = fastDiff, OF this] True
    show ?thesis
      by (simp add: diffIndices_def)
  next
    case False
    with arr that show ?thesis by (auto simp: diffIndices_def)
  qed
  with arr show ?thesis by simp
qed

text \<open>
  Witness for C5: the arrays \<open>[1, 2, 3]\<close> and \<open>[1, 9, 3]\<close>, where the common prefix and
  suffix are stripped and the hunk is still at position 1; the strings \<open>abc\<close> and
  \<open>axyc\<close> with the script \<open>fast-diff\<close> gives for them; and one array against itself.
\<close>

theorem diffIndices_changed_regions_witness:
  "diffIndices (\<lambda>s t. []) wholeWindowCore (JSArray 1 [1, 2, 3 :: int]) (JSArray 2 [1, 9, 3]) =
     [\<lparr>res_a = makeRange 1 1, res_b = makeRange 1 1\<rparr>]
   \<and> changedRegions areReferenceEqual (JSArray 1 [1, 2, 3 :: int]) (JSArray 2 [1, 9, 3])
       (diffIndices (\<lambda>s t. []) wholeWindowCore (JSArray 1 [1, 2, 3 :: int]) (JSArray 2 [1, 9, 3]))
   \<and> diffIndices (\<lambda>s t. [(EQUAL, ''a''), (DELETE, ''b''), (INSERT, ''xy''), (EQUAL, ''c'')])
       wholeWindowCore (JSString ''abc'') (JSString ''axyc'') =
     [\<lparr>res_a = makeRange 1 1, res_b = makeRange 1 2\<rparr>]
   \<and> changedRegions areReferenceEqual (JSString ''abc'') (JSString ''axyc'')
       (diffIndices (\<lambda>s t. [(EQUAL, ''a''), (DELETE, ''b''), (INSERT, ''xy''), (EQUAL, ''c'')])
          wholeWindowCore (JSString ''abc'') (JSString ''axyc''))
   \<and> changedRegions areReferenceEqual (JSArray 1 [1, 2, 3 :: int]) (JSArray 1 [1, 2, 3])
       (diffIndicesArray wholeWindowCore (JSArray 1 [1, 2, 3 :: int]) (JSArray 1 [1, 2, 3])
          areReferenceEqual)"
proof -
  have v1: "diffIndices (\<lambda>s t. []) wholeWindowCore (JSArray 1 [1, 2, 3 :: int])
      (JSArray 2 [1, 9, 3]) = [\<lparr>res_a = makeRange 1 1, res_b = makeRange 1 1\<rparr>]"
    by (simp add: diffIndices_def diffIndicesArray_def eliminatePrefix.simps
        eliminateSuffix.simps wholeWindowCore_def coreResult_def at_def seqLength_def
        areReferenceEqual_def Let_def)
  have v2: "diffIndices (\<lambda>s t. [(EQUAL, ''a''), (DELETE, ''b''), (INSERT, ''xy''), (EQUAL, ''c'')])
       wholeWindowCore (JSString ''abc'') (JSString ''axyc'') =
     [\<lparr>res_a = makeRange 1 1, res_b = makeRange 1 2\<rparr>]"
    by (simp add: diffIndices_def diffIndicesString_def flush_def Let_def)
  have s1: "strictEq (JSArray 1 [1, 2, 3 :: int]) (JSArray 2 [1, 9, 3])
      \<longrightarrow> seqLength (JSArray 1 [1, 2, 3 :: int]) = seqLength (JSArray 2 [1, 9, 3 :: int])
        \<and> (\<forall>i\<in>{0..<seqLength (JSArray 1 [1, 2, 3 :: int])}.
              areReferenceEqual (at (JSArray 1 [1, 2, 3 :: int]) i) (at (JSArray 2 [1, 9, 3]) i))"
    by simp
  have e1: "isString (JSArray 1 [1, 2, 3 :: int]) \<and> isString (JSArray 2 [1, 9, 3 :: int])
      \<longrightarrow> editScript (items (JSArray 1 [1, 2, 3 :: int])) (items (JSArray 2 [1, 9, 3 :: int]))
            ((\<lambda>s t. []) (items (JSArray 1 [1, 2, 3 :: int])) (items (JSArray 2 [1, 9, 3 :: int])))"
    by simp
  have s2: "strictEq (JSString ''abc'') (JSString ''axyc'')
      \<longrightarrow> seqLength (JSString ''abc'') = seqLength (JSString ''axyc'')
        \<and> (\<forall>i\<in>{0..<seqLength (JSString ''abc'')}.
              areReferenceEqual (at (JSString ''abc'') i) (at (JSString ''axyc'') i))"
    by simp
  have e2: "isString (JSString ''abc'') \<and> isString (JSString ''axyc'')
      \<longrightarrow> editScript (items (JSString ''abc'')) (items (JSString ''axyc''))
            ((\<lambda>s t. [(EQUAL, ''a''), (DELETE, ''b''), (INSERT, ''xy''), (EQUAL, ''c'')])
               (items (JSString ''abc'')) (items (JSString ''axyc'')))"
    by (simp add: editScript_def)
  have s3: "strictEq (JSArray 1 [1, 2, 3 :: int]) (JSArray 1 [1, 2, 3])
      \<longrightarrow> seqLength (JSArray 1 [1, 2, 3 :: int]) = seqLength (JSArray 1 [1, 2, 3 :: int])
        \<and> (\<forall>i\<in>{0..<seqLength (JSArray 1 [1, 2, 3 :: int])}.
              areReferenceEqual (at (JSArray 1 [1, 2, 3 :: int]) i) (at (JSArray 1 [1, 2, 3]) i))"
    by (simp add: areReferenceEqual_def)
  have e3: "isString (JSArray 1 [1, 2, 3 :: int]) \<and> isString (JSArray 1 [1, 2, 3 :: int])
      \<longrightarrow> editScript (items (JSArray 1 [1, 2, 3 :: int])) (items (JSArray 1 [1, 2, 3 :: int]))
            ((\<lambda>s t. []) (items (JSArray 1 [1, 2, 3 :: int])) (items (JSArray 1 [1, 2, 3 :: int])))"
    by simp
  from diffIndices_changed_regions
    [where a = "JSArray 1 [1, 2, 3 :: int]" and b = "JSArray 2 [1, 9, 3]"
       and areEqual = areReferenceEqual and diff_core = wholeWindowCore
       and fastDiff = "\<lambda>s t. []", OF wholeWindowCore_contract s1 e1]
  have 1: "changedRegions areReferenceEqual (JSArray 1 [1, 2, 3 :: int]) (JSArray 2 [1, 9, 3])
       (diffIndices (\<lambda>s t. []) wholeWindowCore (JSArray 1 [1, 2, 3 :: int]) (JSArray 2 [1, 9, 3]))"
    by simp
  from diffIndices_changed_regions
    [where a = "JSString ''abc''" and b = "JSString ''axyc''"
       and areEqual = areReferenceEqual and diff_core = wholeWindowCore
       and fastDiff = "\<lambda>s t. [(EQUAL, ''a''), (DELETE, ''b''), (INSERT, ''xy''), (EQUAL, ''c'')]",
     OF wholeWindowCore_contract s2 e2]
  have 2: "changedRegions areReferenceEqual (JSString ''abc'') (JSString ''axyc'')
       (diffIndices (\<lambda>s t. [(EQUAL, ''a''), (DELETE, ''b''), (INSERT, ''xy''), (EQUAL, ''c'')])
          wholeWindowCore (JSString ''abc'') (JSString ''axyc''))"
    by simp
  from diffIndices_changed_regions
    [where a = "JSArray 1 [1, 2, 3 :: int]" and b = "JSArray 1 [1, 2, 3]"
       and areEqual = areReferenceEqual and diff_core = wholeWindowCore
       and fastDiff = "\<lambda>s t. []", OF wholeWindowCore_contract s3 e3]
  have 3: "changedRegions areReferenceEqual (JSArray 1 [1, 2, 3 :: int]) (JSArray 1 [1, 2, 3])
       (diffIndicesArray wholeWindowCore (JSArray 1 [1, 2, 3 :: int]) (JSArray 1 [1, 2, 3])
          areReferenceEqual)"
    by simp
  from v1 v2 1 2 3 show ?thesis by blast
qed


section \<open>Properties of the structural merger\<close>

subsection \<open>C8: identity\<close>

lemma deepEqual_refl: "wellFormed v \<Longrightarrow> deepEqual v v"
proof (induction v)
  case (JArray xs)
  then have "\<forall>x\<in>set xs. deepEqual x x" by (simp add: list_all_iff)
  then show ?case by (simp add: list_all2_same)
next
  case (JObject fs)
  have "case map_of fs k of None \<Rightarrow> False | Some w \<Rightarrow> deepEqual v w" if "(k, v) \<in> set fs" for k v
  proof -
    from JObject.prems that have m: "map_of fs k = Some v" by simp
    from JObject.prems that have "wellFormed v" by (auto simp: list_all_iff)
    with JObject.IH that have "deepEqual v v" by fastforce
    with m show ?thesis by simp
  qed
  then show ?case by (auto simp: list_all_iff)
qed simp_all

text \<open>
  C8. When \<open>a\<close> and \<open>b\<close> are structurally equal to \<open>o\<close>, \<open>diff3\<close> succeeds at any
  positive depth bound and returns \<open>o\<close>, which is structurally equal to itself. Values
  have no identity in the model, so a deep clone is the value itself or, for an object,
  any reordering of its fields.
\<close>

theorem diff3_identity:
  assumes "wellFormed o'" and "deepEqual a o'" and "deepEqual b o'"
  shows "diff3F (Suc n) env o' a b path = Some (Inr o') \<and> deepEqual o' o'"
  using assms by (simp add: deepEqual_refl)

text \<open>
  Witness for C8: an object, a copy with its fields in another order, and a copy as it
  is.
\<close>

theorem diff3_identity_witness:
  "diff3F 1 testEnv
     (JObject [(''hello'', JNumber 1), (''world'', JArray [JNumber 2, JNumber 2])])
     (JObject [(''world'', JArray [JNumber 2, JNumber 2]), (''hello'', JNumber 1)])
     (JObject [(''hello'', JNumber 1), (''world'', JArray [JNumber 2, JNumber 2])]) [] =
   Some (Inr (JObject [(''hello'', JNumber 1), (''world'', JArray [JNumber 2, JNumber 2])]))"
proof -
  have w: "wellFormed (JObject [(''hello'', JNumber 1), (''world'', JArray [JNumber 2, JNumber 2])])"
    by simp
  have a: "deepEqual (JObject [(''world'', JArray [JNumber 2, JNumber 2]), (''hello'', JNumber 1)])
      (JObject [(''hello'', JNumber 1), (''world'', JArray [JNumber 2, JNumber 2])])"
    by (simp add: insert_commute)
  have b: "deepEqual (JObject [(''hello'', JNumber 1), (''world'', JArray [JNumber 2, JNumber 2])])
      (JObject [(''hello'', JNumber 1), (''world'', JArray [JNumber 2, JNumber 2])])"
    by simp
  from diff3_identity [OF w a b, of 0 testEnv "[]"] show ?thesis by simp
qed

subsection \<open>C9: duplicate keys\<close>






end
